theory Spec2Isabelle
  imports Main "HOL-Library.Multiset"
begin

section \<open>JavaScript primitives used by the analysis engine\<close>

text \<open>
  Strings are modelled as \<^typ>\<open>string\<close>: lists of 8-bit characters, read as the
  code units 0..255 of a JavaScript string. A JavaScript number that the disassembler
  stores in its byte vector is either \<open>NaN\<close> or a (small) integer; \<open>-0\<close> behaves
  like \<open>0\<close> in every operation applied to it there (\<open>toString\<close>, property lookup).
\<close>

datatype jsnum = NaN | Num int

definition startsWith :: "string \<Rightarrow> string \<Rightarrow> bool" where
  "startsWith s p = (take (length p) s = p)"

text \<open>\<open>v.startsWith("0x") ? v.slice(2) : v\<close>, the idiom of three source functions.\<close>

definition strip0x :: "string \<Rightarrow> string" where
  "strip0x s = (if startsWith s ''0x'' then drop 2 s else s)"

text \<open>The value of a character as a digit of \<open>parseInt\<close>: 0-9, then a-z or A-Z for 10-35.\<close>

definition digit_val :: "char \<Rightarrow> nat option" where
  "digit_val c =
     (let n = (of_char c :: nat) in
      if 48 \<le> n \<and> n \<le> 57 then Some (n - 48)
      else if 97 \<le> n \<and> n \<le> 122 then Some (n - 87)
      else if 65 \<le> n \<and> n \<le> 90 then Some (n - 55)
      else None)"

definition is_digit :: "nat \<Rightarrow> char \<Rightarrow> bool" where
  "is_digit R c = (case digit_val c of None \<Rightarrow> False | Some d \<Rightarrow> d < R)"

text \<open>White space that \<open>parseInt\<close> skips, within the code units 0..255:
  TAB, LF, VT, FF, CR, SP and NBSP.\<close>

definition is_ws :: "char \<Rightarrow> bool" where
  "is_ws c = (let n = (of_char c :: nat) in (9 \<le> n \<and> n \<le> 13) \<or> n = 32 \<or> n = 160)"

definition digits_value :: "nat \<Rightarrow> string \<Rightarrow> nat" where
  "digits_value R ds = foldl (\<lambda>a c. a * R + (case digit_val c of None \<Rightarrow> 0 | Some d \<Rightarrow> d)) 0 ds"

text \<open>
  \<open>parseInt(s, R)\<close>: skip leading white space, read an optional sign, for radix 16 skip
  an optional \<open>0x\<close>/\<open>0X\<close>, then read the longest prefix of digits of the radix; no digit
  gives \<open>NaN\<close>. It never throws. (The source calls it on chunks of at most two
  characters and on the numeric suffix of a mnemonic, where the result is exact.)
\<close>

definition parseInt :: "string \<Rightarrow> nat \<Rightarrow> jsnum" where
  "parseInt s R =
     (let s1 = dropWhile is_ws s;
          neg = (take 1 s1 = ''-'');
          s2 = (if take 1 s1 = ''-'' \<or> take 1 s1 = ''+'' then drop 1 s1 else s1);
          s3 = (if R = 16 \<and> (take 2 s2 = ''0x'' \<or> take 2 s2 = ''0X'') then drop 2 s2 else s2);
          ds = takeWhile (is_digit R) s3
      in if ds = [] then NaN
         else Num (if neg then - int (digits_value R ds) else int (digits_value R ds)))"

definition digit_char :: "nat \<Rightarrow> char" where
  "digit_char d = ''0123456789abcdef'' ! d"

fun hex_digits :: "nat \<Rightarrow> string" where
  "hex_digits n = (if n < 16 then [digit_char n] else hex_digits (n div 16) @ [digit_char (n mod 16)])"

fun dec_digits :: "nat \<Rightarrow> string" where
  "dec_digits n = (if n < 10 then [digit_char n] else dec_digits (n div 10) @ [digit_char (n mod 10)])"

declare hex_digits.simps [simp del]
declare dec_digits.simps [simp del]

text \<open>\<open>b.toString(16)\<close> on a byte-vector entry.\<close>

definition toString16 :: "jsnum \<Rightarrow> string" where
  "toString16 b =
     (case b of NaN \<Rightarrow> ''NaN''
      | Num n \<Rightarrow> if n < 0 then ''-'' @ hex_digits (nat (- n)) else hex_digits (nat n))"

text \<open>\<open>s.padStart(2, "0")\<close>.\<close>

definition padStart2 :: "string \<Rightarrow> string" where
  "padStart2 s = replicate (2 - length s) CHR ''0'' @ s"

definition hex2 :: "jsnum \<Rightarrow> string" where
  "hex2 b = padStart2 (toString16 b)"

section \<open>Disassembler (opcodes.ts)\<close>

record OpcodeInfo =
  name :: string
  info_in :: nat
  info_out :: nat
  pushBytes :: "nat option"

definition addOpcode :: "string \<Rightarrow> nat \<Rightarrow> nat \<Rightarrow> nat option \<Rightarrow> OpcodeInfo" where
  "addOpcode nm stackIn stackOut pb = \<lparr>name = nm, info_in = stackIn, info_out = stackOut, pushBytes = pb\<rparr>"

text \<open>
  The table \<open>OPCODES\<close>, indexed by the byte. The three loops of the source fill
  0x60..0x7f (PUSH1..PUSH32), 0x80..0x8f (DUP1..DUP16) and 0x90..0x9f (SWAP1..SWAP16);
  the remaining entries are added one by one. All keys are distinct.
\<close>

definition OPCODES :: "int \<Rightarrow> OpcodeInfo option" where
  "OPCODES b =
     (if 0x60 \<le> b \<and> b < 0x80 then
        (let i = nat (b - 0x60) in Some (addOpcode (''PUSH'' @ dec_digits (i + 1)) 0 1 (Some (i + 1))))
      else if 0x80 \<le> b \<and> b < 0x90 then
        (let i = nat (b - 0x80) in Some (addOpcode (''DUP'' @ dec_digits (i + 1)) (i + 1) (i + 2) None))
      else if 0x90 \<le> b \<and> b < 0xa0 then
        (let i = nat (b - 0x90) in Some (addOpcode (''SWAP'' @ dec_digits (i + 1)) (i + 2) (i + 2) None))
      else if b = 0x00 then Some (addOpcode ''STOP'' 0 0 None)
      else if b = 0x01 then Some (addOpcode ''ADD'' 2 1 None)
      else if b = 0x02 then Some (addOpcode ''MUL'' 2 1 None)
      else if b = 0x03 then Some (addOpcode ''SUB'' 2 1 None)
      else if b = 0x10 then Some (addOpcode ''LT'' 2 1 None)
      else if b = 0x11 then Some (addOpcode ''GT'' 2 1 None)
      else if b = 0x14 then Some (addOpcode ''EQ'' 2 1 None)
      else if b = 0x15 then Some (addOpcode ''ISZERO'' 1 1 None)
      else if b = 0x33 then Some (addOpcode ''CALLER'' 0 1 None)
      else if b = 0x34 then Some (addOpcode ''CALLVALUE'' 0 1 None)
      else if b = 0x35 then Some (addOpcode ''CALLDATALOAD'' 1 1 None)
      else if b = 0x36 then Some (addOpcode ''CALLDATASIZE'' 0 1 None)
      else if b = 0x37 then Some (addOpcode ''CALLDATACOPY'' 3 0 None)
      else if b = 0x3d then Some (addOpcode ''RETURNDATASIZE'' 0 1 None)
      else if b = 0x3e then Some (addOpcode ''RETURNDATACOPY'' 3 0 None)
      else if b = 0x51 then Some (addOpcode ''MLOAD'' 1 1 None)
      else if b = 0x52 then Some (addOpcode ''MSTORE'' 2 0 None)
      else if b = 0x53 then Some (addOpcode ''MSTORE8'' 2 0 None)
      else if b = 0x54 then Some (addOpcode ''SLOAD'' 1 1 None)
      else if b = 0x55 then Some (addOpcode ''SSTORE'' 2 0 None)
      else if b = 0x56 then Some (addOpcode ''JUMP'' 1 0 None)
      else if b = 0x57 then Some (addOpcode ''JUMPI'' 2 0 None)
      else if b = 0x5b then Some (addOpcode ''JUMPDEST'' 0 0 None)
      else if b = 0xf1 then Some (addOpcode ''CALL'' 7 1 None)
      else if b = 0xf2 then Some (addOpcode ''CALLCODE'' 7 1 None)
      else if b = 0xf4 then Some (addOpcode ''DELEGATECALL'' 6 1 None)
      else if b = 0xfa then Some (addOpcode ''STATICCALL'' 6 1 None)
      else if b = 0xfd then Some (addOpcode ''REVERT'' 2 0 None)
      else if b = 0xff then Some (addOpcode ''SELFDESTRUCT'' 1 0 None)
      else None)"

text \<open>\<open>OPCODES[byte]\<close>: the property \<open>NaN\<close> is not in the table.\<close>

definition lookupOpcode :: "jsnum \<Rightarrow> OpcodeInfo option" where
  "lookupOpcode b = (case b of NaN \<Rightarrow> None | Num n \<Rightarrow> OPCODES n)"

record Opcode =
  pc :: nat
  op :: string
  pushData :: "string option"
  stackIn :: nat
  stackOut :: nat

text \<open>The byte vector: \<open>parseInt\<close> of every chunk \<open>clean.slice(i, i + 2)\<close>, \<open>i = 0, 2, 4, ...\<close>;
  the last chunk of an odd-length string has one character.\<close>

fun chunks2 :: "string \<Rightarrow> string list" where
  "chunks2 [] = []"
| "chunks2 [a] = [[a]]"
| "chunks2 (a # b # rest) = [a, b] # chunks2 rest"

definition parseBytes :: "string \<Rightarrow> jsnum list" where
  "parseBytes bytecode = map (\<lambda>c. parseInt c 16) (chunks2 (strip0x bytecode))"

text \<open>\<open>bytes.slice(start, end)\<close> for \<open>start \<le> end\<close>: the entries that exist, no padding.\<close>

definition slice :: "'a list \<Rightarrow> nat \<Rightarrow> nat \<Rightarrow> 'a list" where
  "slice xs start end = take (end - start) (drop start xs)"

text \<open>
  One iteration of the \<open>while (pc < bytes.length)\<close> loop at cursor \<open>pc\<close>: the instruction
  pushed and the new cursor. The unknown-opcode branch pushes before it advances; the
  other branch advances first and then pushes, so it records the advanced cursor.
  (\<open>bytes[pc] ?? 0\<close> is the entry itself: the loop guard keeps the cursor in range, and
  \<open>NaN\<close> is not nullish.)
\<close>

definition decode_step :: "jsnum list \<Rightarrow> nat \<Rightarrow> Opcode \<times> nat" where
  "decode_step bytes p =
     (let byte = bytes ! p in
      case lookupOpcode byte of
        None \<Rightarrow>
          (\<lparr>pc = p, op = ''0x'' @ hex2 byte, pushData = None, stackIn = 0, stackOut = 0\<rparr>, p + 1)
      | Some info \<Rightarrow>
          (case pushBytes info of
             Some n \<Rightarrow>
               if n > 0 then
                 (let start = p + 1; end = start + n;
                      dataBytes = slice bytes start end
                  in (\<lparr>pc = end, op = name info,
                       pushData = Some (''0x'' @ concat (map hex2 dataBytes)),
                       stackIn = info_in info, stackOut = info_out info\<rparr>, end))
               else
                 (\<lparr>pc = p + 1, op = name info, pushData = None,
                   stackIn = info_in info, stackOut = info_out info\<rparr>, p + 1)
           | None \<Rightarrow>
               (\<lparr>pc = p + 1, op = name info, pushData = None,
                 stackIn = info_in info, stackOut = info_out info\<rparr>, p + 1)))"

function decode_loop :: "jsnum list \<Rightarrow> nat \<Rightarrow> Opcode list" where
  "decode_loop bytes p =
     (if p < length bytes
      then fst (decode_step bytes p) # decode_loop bytes (snd (decode_step bytes p))
      else [])"
  by pat_completeness auto
termination
proof (relation "measure (\<lambda>(bytes, p). length bytes - p)")
  show "wf (measure (\<lambda>(bytes, p). length bytes - p))" by simp
next
  fix bytes :: "jsnum list" and p :: nat
  assume "p < length bytes"
  moreover have "p < snd (decode_step bytes p)"
    by (simp add: decode_step_def Let_def split: option.splits)
  ultimately show "((bytes, snd (decode_step bytes p)), (bytes, p))
        \<in> measure (\<lambda>(bytes, p). length bytes - p)"
    by simp
qed

declare decode_loop.simps [simp del]

definition decodeBytecode :: "string \<Rightarrow> Opcode list" where
  "decodeBytecode bytecode = decode_loop (parseBytes bytecode) 0"

section \<open>Symbolic expressions and the transfer functions\<close>

datatype EnvSource = CALLER | ADDRESS | ORIGIN

datatype StackExpression =
    Literal string
  | Storage StackExpression
  | Calldata StackExpression
  | Environment EnvSource
  | Op string "StackExpression list"
  | Unknown

text \<open>The stack is a JavaScript array with the top of the stack at the end.\<close>

type_synonym stack = "StackExpression list"

text \<open>\<open>stack.pop() ?? { kind: "Unknown" }\<close>: the popped value and the remaining stack.\<close>

definition pop1 :: "stack \<Rightarrow> StackExpression \<times> stack" where
  "pop1 st = (if st = [] then (Unknown, []) else (last st, butlast st))"

text \<open>The closure \<open>pop(n)\<close>: each popped value is put in front of the result (\<open>unshift\<close>).\<close>

fun pop :: "nat \<Rightarrow> stack \<Rightarrow> StackExpression list \<times> stack" where
  "pop 0 st = ([], st)"
| "pop (Suc n) st =
     (let (e, st1) = pop1 st; (res, st2) = pop n st1 in (res @ [e], st2))"

text \<open>
  DUP and SWAP read their count with \<open>parseInt(op.slice(k), 10)\<close>. The disassembler only
  produces the suffixes 1..16. For a count \<open>n \<le> 0\<close> JavaScript would read past the end
  of the array (\<open>undefined\<close>); no property below depends on that case, and the model
  pushes \<open>Unknown\<close> (DUP) or leaves the stack as it is (SWAP) there.
\<close>

definition apply_dup :: "string \<Rightarrow> stack \<Rightarrow> stack" where
  "apply_dup opname st =
     (case parseInt (drop 3 opname) 10 of
        NaN \<Rightarrow> st @ [Unknown]
      | Num n \<Rightarrow>
          (let idx = int (length st) - n
           in st @ [if 0 \<le> idx \<and> idx < int (length st) then st ! nat idx else Unknown]))"

definition apply_swap :: "string \<Rightarrow> stack \<Rightarrow> stack" where
  "apply_swap opname st =
     (case parseInt (drop 4 opname) 10 of
        NaN \<Rightarrow> st
      | Num n \<Rightarrow>
          (let top = int (length st) - 1; other = int (length st) - 1 - n
           in if 0 \<le> top \<and> 0 \<le> other \<and> other \<le> top
              then (st[nat top := st ! nat other])[nat other := st ! nat top]
              else st))"

record StackInfo =
  si_in :: nat
  si_out :: nat

text \<open>The table of \<open>getOpcodeInfo\<close> in stackTracer.ts, keyed by mnemonic.\<close>

definition known :: "(string \<times> StackInfo) list" where
  "known =
     [(''STOP'', \<lparr>si_in = 0, si_out = 0\<rparr>),
      (''ADD'', \<lparr>si_in = 2, si_out = 1\<rparr>),
      (''MUL'', \<lparr>si_in = 2, si_out = 1\<rparr>),
      (''SUB'', \<lparr>si_in = 2, si_out = 1\<rparr>),
      (''DIV'', \<lparr>si_in = 2, si_out = 1\<rparr>),
      (''MOD'', \<lparr>si_in = 2, si_out = 1\<rparr>),
      (''AND'', \<lparr>si_in = 2, si_out = 1\<rparr>),
      (''OR'', \<lparr>si_in = 2, si_out = 1\<rparr>),
      (''XOR'', \<lparr>si_in = 2, si_out = 1\<rparr>),
      (''EQ'', \<lparr>si_in = 2, si_out = 1\<rparr>),
      (''LT'', \<lparr>si_in = 2, si_out = 1\<rparr>),
      (''GT'', \<lparr>si_in = 2, si_out = 1\<rparr>),
      (''ISZERO'', \<lparr>si_in = 1, si_out = 1\<rparr>),
      (''CALLDATALOAD'', \<lparr>si_in = 1, si_out = 1\<rparr>),
      (''CALLDATASIZE'', \<lparr>si_in = 0, si_out = 1\<rparr>),
      (''SLOAD'', \<lparr>si_in = 1, si_out = 1\<rparr>),
      (''SSTORE'', \<lparr>si_in = 2, si_out = 0\<rparr>),
      (''JUMP'', \<lparr>si_in = 1, si_out = 0\<rparr>),
      (''JUMPI'', \<lparr>si_in = 2, si_out = 0\<rparr>),
      (''DELEGATECALL'', \<lparr>si_in = 6, si_out = 1\<rparr>),
      (''CALL'', \<lparr>si_in = 7, si_out = 1\<rparr>),
      (''STATICCALL'', \<lparr>si_in = 6, si_out = 1\<rparr>)]"

definition getOpcodeInfo :: "string \<Rightarrow> StackInfo option" where
  "getOpcodeInfo opname = map_of known opname"

text \<open>The transfer function of the CFG tracer (stackTracer.ts).\<close>

definition applyInstructionToStack :: "string \<Rightarrow> string option \<Rightarrow> stack \<Rightarrow> stack" where
  "applyInstructionToStack opname pd st =
     (if startsWith opname ''PUSH'' then
        st @ [Literal (case pd of None \<Rightarrow> ''0x'' | Some v \<Rightarrow> v)]
      else if startsWith opname ''DUP'' then apply_dup opname st
      else if startsWith opname ''SWAP'' then apply_swap opname st
      else if opname = ''CALLDATALOAD'' then
        (let (res, st1) = pop 1 st in st1 @ [Calldata (hd res)])
      else if opname = ''SLOAD'' then
        (let (res, st1) = pop 1 st in st1 @ [Storage (hd res)])
      else if opname = ''CALLER'' then st @ [Environment CALLER]
      else if opname = ''ADDRESS'' then st @ [Environment ADDRESS]
      else if opname = ''ORIGIN'' then st @ [Environment ORIGIN]
      else if opname = ''MLOAD'' then
        (let (res, st1) = pop 1 st in st1 @ [Unknown])
      else if opname = ''MSTORE'' \<or> opname = ''MSTORE8'' then snd (pop 2 st)
      else if opname \<in> set [''ADD'', ''SUB'', ''MUL'', ''DIV'', ''MOD'', ''AND'', ''OR'',
                              ''XOR'', ''EQ'', ''LT'', ''GT'', ''ISZERO''] then
        (let (args, st1) = pop (if opname = ''ISZERO'' then 1 else 2) st
         in st1 @ [Op opname args])
      else if opname = ''POP'' then snd (pop 1 st)
      else
        (case getOpcodeInfo opname of
           None \<Rightarrow> st
         | Some info \<Rightarrow> snd (pop (si_in info) st) @ replicate (si_out info) Unknown))"

text \<open>The transfer function of the linear mode (the second \<open>applyInstructionToStack\<close>,
  private to the scanner module): its default case truncates the array by one slot,
  \<open>stack.length = Math.max(0, stack.length - 1)\<close>.\<close>

definition applyInstructionToStack_linear :: "string \<Rightarrow> string option \<Rightarrow> stack \<Rightarrow> stack" where
  "applyInstructionToStack_linear opname pd st =
     (if startsWith opname ''PUSH'' then
        st @ [Literal (case pd of None \<Rightarrow> ''0x'' | Some v \<Rightarrow> v)]
      else if startsWith opname ''DUP'' then apply_dup opname st
      else if startsWith opname ''SWAP'' then apply_swap opname st
      else if opname = ''CALLDATALOAD'' then
        (let (res, st1) = pop 1 st in st1 @ [Calldata (hd res)])
      else if opname = ''SLOAD'' then
        (let (res, st1) = pop 1 st in st1 @ [Storage (hd res)])
      else if opname = ''CALLER'' then st @ [Environment CALLER]
      else if opname = ''ADDRESS'' then st @ [Environment ADDRESS]
      else if opname = ''ORIGIN'' then st @ [Environment ORIGIN]
      else if opname \<in> set [''ADD'', ''SUB'', ''MUL'', ''DIV'', ''AND'', ''OR'',
                              ''XOR'', ''EQ'', ''LT'', ''GT''] then
        (let (args, st1) = pop 2 st in st1 @ [Op opname args])
      else take (length st - 1) st)"

section \<open>Target classifier (targetClassifier.ts)\<close>

datatype TargetType = hardcoded | storage | calldata | dynamic | unknown

record TargetClassification =
  tc_type :: TargetType
  addressLiteral :: "string option"
  storageSlotLiteral :: "string option"
  details :: "string option"

text \<open>\<open>toLowerCase\<close> on the code units 0..255: A-Z, and the Latin-1 capitals
  0xC0..0xDE other than the multiplication sign 0xD7.\<close>

definition lower_char :: "char \<Rightarrow> char" where
  "lower_char c =
     (let n = (of_char c :: nat) in
      if (65 \<le> n \<and> n \<le> 90) \<or> (192 \<le> n \<and> n \<le> 222 \<and> n \<noteq> 215)
      then char_of (n + 32) else c)"

definition toLowerCase :: "string \<Rightarrow> string" where
  "toLowerCase s = map lower_char s"

definition EIP1967_SLOT :: string where
  "EIP1967_SLOT =
     toLowerCase ''0x360894a13ba1a3210667c828492db98dca3e2076cc3735a920a3ca505d382bbc''"

definition normalize :: "string \<Rightarrow> string" where
  "normalize v = ''0x'' @ strip0x v"

definition extractStorageSlotLiteral :: "StackExpression \<Rightarrow> string option" where
  "extractStorageSlotLiteral slotExpr =
     (case slotExpr of Literal v \<Rightarrow> Some (normalize v) | _ \<Rightarrow> None)"

text \<open>A slot string returned by \<open>normalize\<close> starts with \<open>0x\<close>, so the test
  \<open>if (slot)\<close> of the source holds whenever a slot was extracted.\<close>

definition classifyTarget :: "StackExpression \<Rightarrow> TargetClassification" where
  "classifyTarget expr =
     (case expr of
        Literal val \<Rightarrow>
          (let v = normalize val in
           if length v = 40 \<or> length v = 42
           then \<lparr>tc_type = hardcoded, addressLiteral = Some v,
                 storageSlotLiteral = None, details = None\<rparr>
           else \<lparr>tc_type = unknown, addressLiteral = None,
                 storageSlotLiteral = None, details = Some (''literal('' @ v @ '')'')\<rparr>)
      | Storage slotExpr \<Rightarrow>
          (case extractStorageSlotLiteral slotExpr of
             Some slot \<Rightarrow>
               \<lparr>tc_type = storage, addressLiteral = None, storageSlotLiteral = Some slot,
                details = (if toLowerCase slot = EIP1967_SLOT
                           then Some ''EIP-1967 implementation slot'' else None)\<rparr>
           | None \<Rightarrow>
               \<lparr>tc_type = storage, addressLiteral = None, storageSlotLiteral = None,
                details = Some ''non-literal storage slot''\<rparr>)
      | Calldata _ \<Rightarrow>
          \<lparr>tc_type = calldata, addressLiteral = None, storageSlotLiteral = None,
           details = Some ''derived from CALLDATALOAD''\<rparr>
      | Op opname _ \<Rightarrow>
          \<lparr>tc_type = dynamic, addressLiteral = None, storageSlotLiteral = None,
           details = Some (''op('' @ opname @ '')'')\<rparr>
      | _ \<Rightarrow>
          \<lparr>tc_type = unknown, addressLiteral = None, storageSlotLiteral = None,
           details = None\<rparr>)"

section \<open>Control-flow graph (cfg.ts)\<close>

record BasicBlock =
  block_id :: string
  startPc :: nat
  endPc :: int
  instructions :: "Opcode list"
  successors :: "nat list"
  predecessors :: "nat list"

text \<open>\<open>blocks\<close> is a \<open>Map\<close> keyed by \<open>startPc\<close>; it is iterated in insertion order, so
  it is an association list here. \<open>entryBlock\<close> is the block object stored under key 0.\<close>

record ControlFlowGraph =
  blocks :: "(nat \<times> BasicBlock) list"
  entryBlock :: "BasicBlock option"

definition TERMINATORS :: "string set" where
  "TERMINATORS = set [''STOP'', ''RETURN'', ''REVERT'', ''SELFDESTRUCT'', ''JUMP'', ''JUMPI'']"

text \<open>\<open>Set.add\<close> on a set kept in insertion order.\<close>

definition set_add :: "nat \<Rightarrow> nat list \<Rightarrow> nat list" where
  "set_add x xs = (if x \<in> set xs then xs else xs @ [x])"

text \<open>First pass: the leaders. \<open>instructions[i + 1]?.pc\<close> is the pc of the next
  instruction of the list, if there is one.\<close>

fun find_leaders :: "Opcode list \<Rightarrow> nat list \<Rightarrow> nat list" where
  "find_leaders [] leaders = leaders"
| "find_leaders (instr # rest) leaders =
     (let l1 = (if op instr = ''JUMPDEST'' then set_add (pc instr) leaders else leaders);
          l2 = (if op instr \<in> TERMINATORS
                then (case rest of [] \<Rightarrow> l1 | nxt # _ \<Rightarrow> set_add (pc nxt) l1)
                else l1)
      in find_leaders rest l2)"

text \<open>Second pass: one block per sorted leader. The last block ends at
  \<open>instructions.length - 1\<close>, which is \<open>-1\<close> for an empty program.\<close>

fun make_blocks :: "Opcode list \<Rightarrow> nat list \<Rightarrow> (nat \<times> BasicBlock) list" where
  "make_blocks instrs [] = []"
| "make_blocks instrs (start # rest) =
     (let end = (case rest of [] \<Rightarrow> int (length instrs) - 1 | nxt # _ \<Rightarrow> int nxt - 1);
          blockInstrs = filter (\<lambda>i. start \<le> pc i \<and> int (pc i) \<le> end) instrs
      in (start, \<lparr>block_id = ''block-'' @ dec_digits start, startPc = start, endPc = end,
                  instructions = blockInstrs, successors = [], predecessors = []\<rparr>)
         # make_blocks instrs rest)"

definition getBlockContaining :: "(nat \<times> BasicBlock) list \<Rightarrow> nat \<Rightarrow> BasicBlock option" where
  "getBlockContaining bs p =
     find (\<lambda>b. startPc b \<le> p \<and> int p \<le> endPc b) (map snd bs)"

text \<open>Mutation of one block object of the map, found by its key.\<close>

definition update_block :: "nat \<Rightarrow> (BasicBlock \<Rightarrow> BasicBlock) \<Rightarrow> (nat \<times> BasicBlock) list
    \<Rightarrow> (nat \<times> BasicBlock) list" where
  "update_block k f bs = map (\<lambda>(k', b). if k' = k then (k', f b) else (k', b)) bs"

text \<open>The fallthrough edge of the third pass: \<open>block.successors.push(nextBlock.startPc)\<close>
  and \<open>nextBlock.predecessors.push(block.startPc)\<close>.\<close>

definition link_fallthrough :: "Opcode list \<Rightarrow> (nat \<times> BasicBlock) list \<Rightarrow> BasicBlock \<Rightarrow> Opcode
    \<Rightarrow> (nat \<times> BasicBlock) list" where
  "link_fallthrough instrs bs block lastInstr =
     (case find (\<lambda>i. pc i > pc lastInstr) instrs of
        None \<Rightarrow> bs
      | Some nxt \<Rightarrow>
          (case getBlockContaining bs (pc nxt) of
             None \<Rightarrow> bs
           | Some nextBlock \<Rightarrow>
               update_block (startPc nextBlock)
                 (\<lambda>b. b\<lparr>predecessors := predecessors b @ [startPc block]\<rparr>)
                 (update_block (startPc block)
                    (\<lambda>b. b\<lparr>successors := successors b @ [startPc nextBlock]\<rparr>) bs)))"

text \<open>The body of the third pass for the block stored under key \<open>k\<close>.\<close>

definition connect_block :: "Opcode list \<Rightarrow> (nat \<times> BasicBlock) list \<Rightarrow> nat
    \<Rightarrow> (nat \<times> BasicBlock) list" where
  "connect_block instrs bs k =
     (case map_of bs k of
        None \<Rightarrow> bs
      | Some block \<Rightarrow>
          if instructions block = [] then bs
          else
            (let lastInstr = last (instructions block) in
             if op lastInstr = ''JUMP'' then bs
             else if op lastInstr = ''JUMPI'' then link_fallthrough instrs bs block lastInstr
             else if op lastInstr \<notin> TERMINATORS then link_fallthrough instrs bs block lastInstr
             else bs))"

definition buildCFG :: "Opcode list \<Rightarrow> ControlFlowGraph" where
  "buildCFG instrs =
     (let leaders = find_leaders instrs [0];
          sortedLeaders = sort leaders;
          blocks0 = make_blocks instrs sortedLeaders;
          blocks1 = foldl (connect_block instrs) blocks0 (map fst blocks0)
      in \<lparr>blocks = blocks1, entryBlock = map_of blocks1 0\<rparr>)"

section \<open>Symbolic stack tracer (stackTracer.ts)\<close>

text \<open>The memory map is never written by any code path; it is kept as the (always
  empty) association list it is.\<close>

record BlockState =
  stack :: stack
  memory :: "(nat \<times> StackExpression) list"

definition run_instrs :: "Opcode list \<Rightarrow> stack \<Rightarrow> stack" where
  "run_instrs instrs st = foldl (\<lambda>s instr. applyInstructionToStack (op instr) (pushData instr) s) st instrs"

definition simulateBlock :: "BasicBlock \<Rightarrow> BlockState \<Rightarrow> BlockState" where
  "simulateBlock block initialState =
     \<lparr>stack = run_instrs (instructions block) (stack initialState),
      memory = memory initialState\<rparr>"

text \<open>
  \<open>joinStates\<close>. With stacks of equal length both \<open>expr1\<close> and \<open>expr2\<close> exist at every
  index, so the \<open>!expr1 || !expr2\<close> branch is not taken; \<open>JSON.stringify\<close> of two
  expressions is equal exactly when they are structurally equal.
\<close>

definition joinStates :: "BlockState \<Rightarrow> BlockState \<Rightarrow> BlockState" where
  "joinStates state1 state2 =
     (if length (stack state1) \<noteq> length (stack state2)
      then \<lparr>stack = map (\<lambda>_. Unknown) (stack state1), memory = []\<rparr>
      else \<lparr>stack = map (\<lambda>(expr1, expr2). if expr1 = expr2 then expr1 else Unknown)
                        (zip (stack state1) (stack state2)),
            memory = []\<rparr>)"

definition empty_state :: BlockState where
  "empty_state = \<lparr>stack = [], memory = []\<rparr>"

text \<open>The input state of a block popped from the worklist.\<close>

definition initial_state :: "BasicBlock \<Rightarrow> nat \<Rightarrow> (nat \<rightharpoonup> BlockState) \<Rightarrow> BlockState" where
  "initial_state block blockPc states =
     (if predecessors block = [] then
        (case states blockPc of None \<Rightarrow> empty_state | Some s \<Rightarrow> s)
      else
        (let predStates = List.map_filter states (predecessors block)
         in case predStates of
              [] \<Rightarrow> empty_state
            | p0 # _ \<Rightarrow> foldl joinStates p0 predStates))"

text \<open>Successors are pushed onto the worklist unless already there.\<close>

fun push_new :: "nat list \<Rightarrow> nat list \<Rightarrow> nat list" where
  "push_new worklist [] = worklist"
| "push_new worklist (succPc # rest) =
     push_new (if succPc \<in> set worklist then worklist else worklist @ [succPc]) rest"

text \<open>One iteration of the worklist loop, after \<open>worklist.shift()\<close> returned \<open>blockPc\<close>.\<close>

definition worklist_step :: "ControlFlowGraph \<Rightarrow> nat \<Rightarrow> nat list \<Rightarrow> (nat \<rightharpoonup> BlockState)
    \<Rightarrow> nat list \<times> (nat \<rightharpoonup> BlockState)" where
  "worklist_step cfg blockPc worklist states =
     (case map_of (blocks cfg) blockPc of
        None \<Rightarrow> (worklist, states)
      | Some block \<Rightarrow>
          (let initialState = initial_state block blockPc states;
               finalState = simulateBlock block initialState;
               changed = (case states blockPc of
                            None \<Rightarrow> True
                          | Some oldState \<Rightarrow> stack oldState \<noteq> stack finalState)
           in if changed
              then (push_new worklist (successors block), states(blockPc \<mapsto> finalState))
              else (worklist, states)))"

text \<open>The loop \<open>while (worklist.length > 0)\<close>; \<open>None\<close> stands for a loop that never ends.\<close>

partial_function (option) worklist_loop :: "ControlFlowGraph \<Rightarrow> nat list \<Rightarrow> (nat \<rightharpoonup> BlockState)
    \<Rightarrow> (nat \<rightharpoonup> BlockState) option" where
  "worklist_loop cfg worklist states =
     (case worklist of
        [] \<Rightarrow> Some states
      | blockPc # rest \<Rightarrow>
          worklist_loop cfg (fst (worklist_step cfg blockPc rest states))
                            (snd (worklist_step cfg blockPc rest states)))"

declare worklist_loop.simps [code]

definition traceStackAtPC :: "ControlFlowGraph \<Rightarrow> nat \<Rightarrow> stack option" where
  "traceStackAtPC cfg targetPc =
     (case getBlockContaining (blocks cfg) targetPc of
        None \<Rightarrow> Some []
      | Some targetBlock \<Rightarrow>
          (let states0 = (case entryBlock cfg of
                            None \<Rightarrow> Map.empty
                          | Some e \<Rightarrow> [startPc e \<mapsto> empty_state])
           in case worklist_loop cfg [startPc targetBlock] states0 of
                None \<Rightarrow> None
              | Some states \<Rightarrow>
                  (case find (\<lambda>instr. pc instr = targetPc) (instructions targetBlock) of
                     None \<Rightarrow> Some []
                   | Some targetInstr \<Rightarrow>
                       (case states (startPc targetBlock) of
                          None \<Rightarrow> Some []
                        | Some blockState \<Rightarrow>
                            Some (run_instrs
                                    (takeWhile (\<lambda>instr. pc instr \<noteq> targetPc) (instructions targetBlock))
                                    (stack blockState))))))"

section \<open>Pattern detector (proxyPatterns.ts)\<close>

record ProxyPatternMatch =
  pm_name :: string
  description :: string

record DelegatecallSite =
  site_id :: string
  site_pc :: nat
  blockId :: string
  targetExpression :: StackExpression
  classification :: TargetClassification
  patternMatch :: "ProxyPatternMatch option"

definition EIP1167_PREFIX :: string where
  "EIP1167_PREFIX = ''363d3d373d3d3d363d73''"

definition EIP1167_SUFFIX :: string where
  "EIP1167_SUFFIX = ''5af43d82803e903d91602b57fd5bf3''"

definition EIP1967_IMPL_SLOT :: string where
  "EIP1967_IMPL_SLOT =
     toLowerCase ''0x360894a13ba1a3210667c828492db98dca3e2076cc3735a920a3ca505d382bbc''"

definition UUPS_SLOT :: string where
  "UUPS_SLOT =
     toLowerCase ''0xc5f16f0fcc639fa48a6947836d9850f504798523bf8c9a3a87d5876cf622bcf7''"

text \<open>\<open>hay.indexOf(needle, from)\<close>: the first position at or after \<open>from\<close> where
  \<open>needle\<close> occurs, \<open>None\<close> for \<open>-1\<close>.\<close>

definition occurs_at :: "string \<Rightarrow> string \<Rightarrow> nat \<Rightarrow> bool" where
  "occurs_at hay needle i = (take (length needle) (drop i hay) = needle)"

definition indexOf :: "string \<Rightarrow> string \<Rightarrow> nat \<Rightarrow> nat option" where
  "indexOf hay needle from =
     find (occurs_at hay needle) [min from (length hay) ..< Suc (length hay)]"

definition detectEip1167 :: "string \<Rightarrow> bool" where
  "detectEip1167 cleanBytecode =
     (let lower = toLowerCase cleanBytecode in
      case indexOf lower EIP1167_PREFIX 0 of
        None \<Rightarrow> False
      | Some idx \<Rightarrow>
          (case indexOf lower EIP1167_SUFFIX (idx + length EIP1167_PREFIX + 40) of
             None \<Rightarrow> False
           | Some suffixIdx \<Rightarrow> True))"

definition detectDiamondPattern :: "DelegatecallSite list \<Rightarrow> bool" where
  "detectDiamondPattern sites =
     (if length sites < 2 then False
      else
        (let storageSites = filter (\<lambda>s. tc_type (classification s) = storage) sites in
         if length storageSites < 2 then False
         else
           (let uniqueSlots =
                  set (List.map_filter (\<lambda>s. storageSlotLiteral (classification s)) storageSites)
            in card uniqueSlots \<ge> 2)))"

definition lower_slot :: "DelegatecallSite \<Rightarrow> string option" where
  "lower_slot s = map_option toLowerCase (storageSlotLiteral (classification s))"

definition detectProxyPatterns :: "string \<Rightarrow> DelegatecallSite list \<Rightarrow> DelegatecallSite list" where
  "detectProxyPatterns bytecode sites =
     (let clean = strip0x bytecode;
          isEip1167 = detectEip1167 clean;
          storageSlots = set (List.map_filter lower_slot sites);
          isDiamond = detectDiamondPattern sites
      in map (\<lambda>site.
               site\<lparr>patternMatch :=
                 (if isEip1167 then
                    Some \<lparr>pm_name = ''EIP-1167'', description = ''Minimal proxy clone pattern''\<rparr>
                  else if lower_slot site = Some EIP1967_IMPL_SLOT then
                    (let hasUUPS = (UUPS_SLOT \<in> storageSlots) in
                     Some \<lparr>pm_name = (if hasUUPS then ''UUPS'' else ''EIP-1967''),
                           description =
                             (if hasUUPS then ''UUPS upgradeable proxy pattern''
                              else ''EIP-1967 transparent proxy implementation slot'')\<rparr>)
                  else if isDiamond then
                    Some \<lparr>pm_name = ''Diamond'',
                          description = ''EIP-2535 Diamond pattern (multiple facets)''\<rparr>
                  else None)\<rparr>) sites)"

text \<open>\<open>summarizeProxyPatterns\<close>: the counts per pattern name, in order of first occurrence.\<close>

fun bump_count :: "string \<Rightarrow> (string \<times> nat) list \<Rightarrow> (string \<times> nat) list" where
  "bump_count nm [] = [(nm, 1)]"
| "bump_count nm ((k, c) # rest) =
     (if k = nm then (k, c + 1) # rest else (k, c) # bump_count nm rest)"

definition summarizeProxyPatterns :: "DelegatecallSite list \<Rightarrow> (string \<times> nat) list" where
  "summarizeProxyPatterns sites =
     foldl (\<lambda>counts site. case patternMatch site of
                             None \<Rightarrow> counts
                           | Some m \<Rightarrow> bump_count (pm_name m) counts) [] sites"

section \<open>Scanner entry point (\<open>analyzeBytecode\<close>)\<close>

datatype RiskLevel = risk_low | risk_medium | risk_high | risk_unknown

definition classifyRisk :: "TargetClassification \<Rightarrow> ProxyPatternMatch option \<Rightarrow> RiskLevel" where
  "classifyRisk cl pattern =
     (if tc_type cl = hardcoded then
        (if (case pattern of None \<Rightarrow> False | Some m \<Rightarrow> pm_name m = ''EIP-1167'')
         then risk_medium else risk_low)
      else if tc_type cl = storage then risk_medium
      else if tc_type cl = calldata then risk_high
      else if tc_type cl = dynamic then risk_high
      else risk_unknown)"

record ReportSite =
  rs_id :: string
  rs_pc :: nat
  rs_classification :: TargetClassification
  rs_pattern :: "ProxyPatternMatch option"
  rs_risk :: RiskLevel
  rs_notes :: "string list"

text \<open>The report, without its \<open>bytecodeHash\<close> (a SHA-256 digest) and its \<open>graph\<close>,
  which no property below reads.\<close>

record Report =
  contractAddress :: "string option"
  network :: "string option"
  delegatecallCount :: nat
  overallRisk :: "RiskLevel option"
  sites :: "ReportSite list"
  proxiesDetected :: "(string \<times> nat) list"

record ScanOptions =
  opt_contractAddress :: "string option"
  opt_network :: "string option"
  useCFG :: "bool option"

text \<open>The target expression read from a stack: \<open>stack[stack.length - 2]\<close>, or \<open>Unknown\<close>
  when the stack has fewer than two slots.\<close>

definition target_of :: "stack \<Rightarrow> StackExpression" where
  "target_of st = (if length st \<ge> 2 then st ! (length st - 2) else Unknown)"

definition make_site :: "Opcode \<Rightarrow> string \<Rightarrow> StackExpression \<Rightarrow> DelegatecallSite" where
  "make_site instr bid targetExpr =
     \<lparr>site_id = ''site-'' @ dec_digits (pc instr), site_pc = pc instr, blockId = bid,
      targetExpression = targetExpr, classification = classifyTarget targetExpr,
      patternMatch = None\<rparr>"

text \<open>CFG mode: the loop over the instructions; for each DELEGATECALL the stack is traced
  through the CFG (and the loop only goes on once the trace has returned).\<close>

fun cfg_sites :: "ControlFlowGraph \<Rightarrow> Opcode list \<Rightarrow> DelegatecallSite list option" where
  "cfg_sites cfg [] = Some []"
| "cfg_sites cfg (instr # rest) =
     (if op instr = ''DELEGATECALL'' then
        (case traceStackAtPC cfg (pc instr) of
           None \<Rightarrow> None
         | Some st \<Rightarrow>
             (let bid = (case getBlockContaining (blocks cfg) (pc instr) of
                           None \<Rightarrow> ''block-'' @ dec_digits (pc instr)
                         | Some block \<Rightarrow> block_id block)
              in case cfg_sites cfg rest of
                   None \<Rightarrow> None
                 | Some ss \<Rightarrow> Some (make_site instr bid (target_of st) # ss)))
      else cfg_sites cfg rest)"

text \<open>Linear mode: the transfer function is applied to the instruction first, and the
  target is read from the resulting stack.\<close>

fun linear_sites :: "Opcode list \<Rightarrow> stack \<Rightarrow> DelegatecallSite list" where
  "linear_sites [] st = []"
| "linear_sites (instr # rest) st =
     (let st1 = applyInstructionToStack_linear (op instr) (pushData instr) st in
      if op instr = ''DELEGATECALL''
      then make_site instr ''linear'' (target_of st1) # linear_sites rest st1
      else linear_sites rest st1)"

text \<open>\<open>order.indexOf(r)\<close> for \<open>order = ["low", "medium", "high", "unknown"]\<close>.\<close>

fun order_index :: "RiskLevel \<Rightarrow> nat" where
  "order_index risk_low = 0"
| "order_index risk_medium = 1"
| "order_index risk_high = 2"
| "order_index risk_unknown = 3"

definition overall_risk :: "ReportSite list \<Rightarrow> RiskLevel option" where
  "overall_risk reportSites =
     (if length reportSites > 0
      then Some (foldl (\<lambda>acc r. if order_index r > order_index acc then r else acc)
                       risk_low (map rs_risk reportSites))
      else None)"

text \<open>The part of \<open>analyzeBytecode\<close> after the sites have been collected.\<close>

definition build_report :: "string \<Rightarrow> ScanOptions \<Rightarrow> DelegatecallSite list \<Rightarrow> Report" where
  "build_report bytecode opts sites0 =
     (let enrichedSites = detectProxyPatterns bytecode sites0;
          reportSites = map (\<lambda>s. \<lparr>rs_id = site_id s, rs_pc = site_pc s,
                                   rs_classification = classification s,
                                   rs_pattern = patternMatch s,
                                   rs_risk = classifyRisk (classification s) (patternMatch s),
                                   rs_notes = []\<rparr>) enrichedSites
      in \<lparr>contractAddress = opt_contractAddress opts, network = opt_network opts,
          delegatecallCount = length sites0,
          overallRisk = overall_risk reportSites,
          sites = reportSites,
          proxiesDetected = summarizeProxyPatterns enrichedSites\<rparr>)"

text \<open>\<open>analyzeBytecode\<close>; \<open>opts.useCFG !== false\<close> selects the CFG mode. The result is
  \<open>None\<close> if the analysis does not return.\<close>

definition analyzeBytecode :: "string \<Rightarrow> ScanOptions \<Rightarrow> Report option" where
  "analyzeBytecode bytecode opts =
     (let instrs = decodeBytecode bytecode in
      if useCFG opts \<noteq> Some False then
        (case cfg_sites (buildCFG instrs) instrs of
           None \<Rightarrow> None
         | Some ss \<Rightarrow> Some (build_report bytecode opts ss))
      else Some (build_report bytecode opts (linear_sites instrs [])))"


definition cfg_opts :: ScanOptions where
  "cfg_opts = \<lparr>opt_contractAddress = None, opt_network = None, useCFG = Some True\<rparr>"

definition linear_opts :: ScanOptions where
  "linear_opts = \<lparr>opt_contractAddress = None, opt_network = None, useCFG = Some False\<rparr>"

section \<open>Notions of the specification\<close>

text \<open>
  A well-formed hex bytecode: after an optional leading \<open>0x\<close>, an even number of
  characters, all of them hex digits. Its byte vector takes the characters two by two;
  \<open>count_delegatecall_bytes\<close> walks that vector and counts the bytes \<open>0xf4\<close> that are
  not among the \<open>N\<close> bytes following a PUSH-N opcode byte (0x60..0x7f).
\<close>

definition well_formed_hex :: "string \<Rightarrow> bool" where
  "well_formed_hex bytecode =
     (even (length (strip0x bytecode)) \<and> list_all (is_digit 16) (strip0x bytecode))"

definition nibble :: "char \<Rightarrow> nat" where
  "nibble c = (case digit_val c of None \<Rightarrow> 0 | Some d \<Rightarrow> d)"

fun hex_byte_values :: "string \<Rightarrow> nat list" where
  "hex_byte_values (a # b # rest) = (16 * nibble a + nibble b) # hex_byte_values rest"
| "hex_byte_values _ = []"

fun count_delegatecall_bytes :: "nat list \<Rightarrow> nat" where
  "count_delegatecall_bytes [] = 0"
| "count_delegatecall_bytes (b # rest) =
     (if 0x60 \<le> b \<and> b \<le> 0x7f then count_delegatecall_bytes (drop (b - 0x5f) rest)
      else (if b = 0xf4 then 1 else 0) + count_delegatecall_bytes rest)"

text \<open>
  The EIP-1167 shape of a (lowercase, unprefixed) bytecode string: the prefix occurs at
  some position and the suffix occurs at least 40 characters after the end of that
  prefix. The Diamond condition: at least two sites of type \<open>storage\<close>, whose slot
  literals form a set of at least two elements.
\<close>

definition contains_eip1167 :: "string \<Rightarrow> bool" where
  "contains_eip1167 code =
     (\<exists>i j. occurs_at code EIP1167_PREFIX i \<and> occurs_at code EIP1167_SUFFIX j \<and>
            i + length EIP1167_PREFIX + 40 \<le> j)"

definition diamond_shape :: "DelegatecallSite list \<Rightarrow> bool" where
  "diamond_shape ss =
     (2 \<le> length (filter (\<lambda>s. tc_type (classification s) = storage) ss) \<and>
      2 \<le> card {sl. \<exists>s \<in> set ss. tc_type (classification s) = storage \<and>
                       storageSlotLiteral (classification s) = Some sl})"

section \<open>Invariants of the control-flow graph\<close>

text \<open>Structure of the block map that the third pass keeps.\<close>

definition wf_blocks :: "Opcode list \<Rightarrow> (nat \<times> BasicBlock) list \<Rightarrow> bool" where
  "wf_blocks instrs bs =
     (distinct (map fst bs) \<and>
      (\<forall>(k, b) \<in> set bs. startPc b = k \<and>
           instructions b = filter (\<lambda>i. k \<le> pc i \<and> int (pc i) \<le> endPc b) instrs) \<and>
      (\<forall>(k, b) \<in> set bs. \<forall>(k', b') \<in> set bs. k < k' \<longrightarrow> endPc b < int k'))"

definition fwd_edges :: "(nat \<times> BasicBlock) list \<Rightarrow> bool" where
  "fwd_edges bs = (\<forall>(k, b) \<in> set bs. \<forall>s \<in> set (successors b). k < s)"

text \<open>A bound on the block keys that can ever enter the worklist, and the order in which
  the worklist shrinks: a popped key is replaced by larger keys only.\<close>

definition succ_bound :: "(nat \<times> BasicBlock) list \<Rightarrow> nat" where
  "succ_bound bs = Max (insert 0 (\<Union>(k, b) \<in> set bs. set (successors b)))"

definition wl_rel :: "nat \<Rightarrow> (nat \<times> nat) set" where
  "wl_rel B = {(a, b). b < a \<and> a \<le> B}"

section \<open>The disassembler: cursors and program counters\<close>

lemma decode_step_advances: "p < snd (decode_step bytes p)"
  by (simp add: decode_step_def Let_def split: option.splits)

lemma decode_step_pc_bounds:
  "p \<le> pc (fst (decode_step bytes p)) \<and> pc (fst (decode_step bytes p)) \<le> snd (decode_step bytes p)"
  by (simp add: decode_step_def Let_def split: option.splits)

lemma decode_loop_pcs_ge: "i \<in> set (decode_loop bytes p) \<Longrightarrow> p \<le> pc i"
proof (induction bytes p rule: decode_loop.induct)
  case (1 bytes p)
  show ?case
  proof (cases "p < length bytes")
    case True
    with "1.prems" have "i = fst (decode_step bytes p) \<or> i \<in> set (decode_loop bytes (snd (decode_step bytes p)))"
      by (simp add: decode_loop.simps [of bytes p])
    then show ?thesis
    proof
      assume "i = fst (decode_step bytes p)"
      then show ?thesis using decode_step_pc_bounds [of p bytes] by simp
    next
      assume "i \<in> set (decode_loop bytes (snd (decode_step bytes p)))"
      with "1.IH" True have "snd (decode_step bytes p) \<le> pc i" by simp
      then show ?thesis using decode_step_advances [of p bytes] by simp
    qed
  next
    case False
    with "1.prems" show ?thesis by (simp add: decode_loop.simps [of bytes p])
  qed
qed

lemma decode_loop_sorted: "sorted (map pc (decode_loop bytes p))"
proof (induction bytes p rule: decode_loop.induct)
  case (1 bytes p)
  show ?case
  proof (cases "p < length bytes")
    case True
    have "\<forall>i \<in> set (decode_loop bytes (snd (decode_step bytes p))). pc (fst (decode_step bytes p)) \<le> pc i"
      using decode_loop_pcs_ge [of _ bytes "snd (decode_step bytes p)"] decode_step_pc_bounds [of p bytes]
      by fastforce
    with "1.IH" True show ?thesis
      by (simp add: decode_loop.simps [of bytes p])
  next
    case False
    then show ?thesis by (simp add: decode_loop.simps [of bytes p])
  qed
qed

lemma make_blocks_keys: "map fst (make_blocks instrs ls) = ls"
  by (induction instrs ls rule: make_blocks.induct) (simp_all add: Let_def)

lemma make_blocks_entry:
  "(k, b) \<in> set (make_blocks instrs ls) \<Longrightarrow>
     startPc b = k \<and> successors b = [] \<and>
     instructions b = filter (\<lambda>i. k \<le> pc i \<and> int (pc i) \<le> endPc b) instrs"
  by (induction instrs ls rule: make_blocks.induct) (auto simp: Let_def)

lemma make_blocks_end:
  "sorted ls \<Longrightarrow> distinct ls \<Longrightarrow> (k, b) \<in> set (make_blocks instrs ls) \<Longrightarrow> k' \<in> set ls \<Longrightarrow> k < k'
     \<Longrightarrow> endPc b < int k'"
proof (induction instrs ls rule: make_blocks.induct)
  case (1 instrs)
  then show ?case by simp
next
  case (2 instrs start rest)
  show ?case
  proof (cases "(k, b) \<in> set (make_blocks instrs rest)")
    case True
    with "2.prems" have "k \<in> set rest" using make_blocks_keys [of instrs rest]
      by (metis fst_conv image_eqI set_map)
    with "2.prems" have "k' \<noteq> start" by auto
    with "2.IH" "2.prems" True show ?thesis by auto
  next
    case False
    with "2.prems" have kb: "k = start" "endPc b = (case rest of [] \<Rightarrow> int (length instrs) - 1 | nxt # _ \<Rightarrow> int nxt - 1)"
      by (auto simp: Let_def)
    with "2.prems" have "k' \<in> set rest" by auto
    then obtain nxt rest' where r: "rest = nxt # rest'" by (cases rest) auto
    with "2.prems" \<open>k' \<in> set rest\<close> have "nxt \<le> k'" by auto
    with kb r show ?thesis by simp
  qed
qed

lemma wf_blocks_make:
  assumes "sorted ls" "distinct ls"
  shows "wf_blocks instrs (make_blocks instrs ls)"
  unfolding wf_blocks_def
proof (intro conjI)
  show "distinct (map fst (make_blocks instrs ls))" using assms by (simp add: make_blocks_keys)
  show "\<forall>(k, b)\<in>set (make_blocks instrs ls).
       startPc b = k \<and> instructions b = filter (\<lambda>i. k \<le> pc i \<and> int (pc i) \<le> endPc b) instrs"
    using make_blocks_entry by blast
  show "\<forall>(k, b)\<in>set (make_blocks instrs ls). \<forall>(k', b')\<in>set (make_blocks instrs ls). k < k' \<longrightarrow> endPc b < int k'"
  proof (clarify)
    fix k b k' b'
    assume a: "(k, b) \<in> set (make_blocks instrs ls)" "(k', b') \<in> set (make_blocks instrs ls)" "k < k'"
    then have "k' \<in> set ls" using make_blocks_keys [of instrs ls]
      by (metis fst_conv image_eqI set_map)
    with assms a show "endPc b < int k'" using make_blocks_end by blast
  qed
qed

section \<open>Edges of the control-flow graph point forward\<close>

lemma update_block_keys: "map fst (update_block k f bs) = map fst bs"
  by (induction bs) (auto simp: update_block_def)

lemma update_block_mem:
  "(k', b') \<in> set (update_block k f bs) \<longleftrightarrow>
     (\<exists>b. (k', b) \<in> set bs \<and> b' = (if k' = k then f b else b))"
proof (induction bs)
  case Nil
  then show ?case by (simp add: update_block_def)
next
  case (Cons x bs)
  obtain a b where x: "x = (a, b)" by (cases x)
  have "update_block k f (x # bs) = (if a = k then (a, f b) else (a, b)) # update_block k f bs"
    by (simp add: update_block_def x)
  with Cons x show ?case by auto
qed

lemma wf_blocks_update:
  assumes wf: "wf_blocks instrs bs"
    and f: "\<And>b. startPc (f b) = startPc b \<and> endPc (f b) = endPc b \<and> instructions (f b) = instructions b"
  shows "wf_blocks instrs (update_block k f bs)"
proof -
  have same: "\<And>k' b'. (k', b') \<in> set (update_block k f bs) \<Longrightarrow>
      \<exists>b. (k', b) \<in> set bs \<and> startPc b' = startPc b \<and> endPc b' = endPc b \<and> instructions b' = instructions b"
    using f by (auto simp: update_block_mem)
  show ?thesis
    unfolding wf_blocks_def
  proof (intro conjI)
    show "distinct (map fst (update_block k f bs))"
      using wf by (simp add: update_block_keys wf_blocks_def)
    show "\<forall>(k', b')\<in>set (update_block k f bs). startPc b' = k' \<and>
            instructions b' = filter (\<lambda>i. k' \<le> pc i \<and> int (pc i) \<le> endPc b') instrs"
    proof clarify
      fix k' b' assume "(k', b') \<in> set (update_block k f bs)"
      then obtain b where b: "(k', b) \<in> set bs" "startPc b' = startPc b" "endPc b' = endPc b"
          "instructions b' = instructions b" using same by blast
      with wf have "startPc b = k' \<and> instructions b = filter (\<lambda>i. k' \<le> pc i \<and> int (pc i) \<le> endPc b) instrs"
        unfolding wf_blocks_def by blast
      with b show "startPc b' = k' \<and>
            instructions b' = filter (\<lambda>i. k' \<le> pc i \<and> int (pc i) \<le> endPc b') instrs" by simp
    qed
    show "\<forall>(k1, b1)\<in>set (update_block k f bs). \<forall>(k2, b2)\<in>set (update_block k f bs).
            k1 < k2 \<longrightarrow> endPc b1 < int k2"
    proof clarify
      fix k1 b1 k2 b2
      assume a: "(k1, b1) \<in> set (update_block k f bs)" "(k2, b2) \<in> set (update_block k f bs)" "k1 < k2"
      from a(1) obtain c1 where c1: "(k1, c1) \<in> set bs" "endPc b1 = endPc c1" using same by blast
      from a(2) obtain c2 where c2: "(k2, c2) \<in> set bs" using same by blast
      from wf c1(1) c2 a(3) have "endPc c1 < int k2" unfolding wf_blocks_def by blast
      with c1 show "endPc b1 < int k2" by simp
    qed
  qed
qed

lemma sorted_last_max:
  "sorted (map f xs) \<Longrightarrow> x \<in> set xs \<Longrightarrow> (f x :: nat) \<le> f (last xs)"
  by (induction xs) (auto split: if_splits)

lemma getBlockContaining_Some:
  "getBlockContaining bs p = Some nb \<Longrightarrow>
     (\<exists>k. (k, nb) \<in> set bs) \<and> startPc nb \<le> p \<and> int p \<le> endPc nb"
  unfolding getBlockContaining_def find_Some_iff
  by (metis (mono_tags, lifting) length_map nth_map nth_mem prod.collapse)

lemma link_target_forward:
  assumes wf: "wf_blocks instrs bs"
    and srt: "sorted (map pc instrs)"
    and blk: "map_of bs k = Some block"
    and ne: "instructions block \<noteq> []"
    and nxt: "find (\<lambda>i. pc i > pc (last (instructions block))) instrs = Some nxt"
    and nb: "getBlockContaining bs (pc nxt) = Some nb"
  shows "k < startPc nb"
proof -
  from blk have kb: "(k, block) \<in> set bs" by (rule map_of_SomeD)
  with wf have ins: "instructions block = filter (\<lambda>i. k \<le> pc i \<and> int (pc i) \<le> endPc block) instrs"
    unfolding wf_blocks_def by blast
  let ?l = "last (instructions block)"
  from ne have "?l \<in> set (instructions block)" by simp
  with ins have l: "k \<le> pc ?l" "int (pc ?l) \<le> endPc block" by auto
  from nxt have n: "nxt \<in> set instrs" "pc ?l < pc nxt"
    unfolding find_Some_iff by auto
  from nb obtain k' where k': "(k', nb) \<in> set bs" "startPc nb \<le> pc nxt" "int (pc nxt) \<le> endPc nb"
    using getBlockContaining_Some by blast
  with wf have sk: "startPc nb = k'" unfolding wf_blocks_def by blast
  show ?thesis
  proof (rule ccontr)
    assume "\<not> k < startPc nb"
    with sk have "k' \<le> k" by simp
    then consider "k' = k" | "k' < k" by linarith
    then show False
    proof cases
      case 1
      with wf kb k' have "nb = block" unfolding wf_blocks_def
        by (metis (no_types, lifting) eq_key_imp_eq_value)
      with k' l n ins have "nxt \<in> set (instructions block)" by auto
      moreover have "sorted (map pc (instructions block))"
        using srt ins by (simp add: sorted_filter)
      ultimately have "pc nxt \<le> pc ?l" by (rule sorted_last_max [rotated])
      with n show False by simp
    next
      case 2
      with wf k' kb have "endPc nb < int k" unfolding wf_blocks_def by blast
      with k' l n show False by simp
    qed
  qed
qed

lemma link_fallthrough_wf:
  "wf_blocks instrs bs \<Longrightarrow> wf_blocks instrs (link_fallthrough instrs bs block lastInstr)"
  unfolding link_fallthrough_def
  by (auto split: option.splits intro!: wf_blocks_update)

lemma connect_block_wf:
  "wf_blocks instrs bs \<Longrightarrow> wf_blocks instrs (connect_block instrs bs k)"
  unfolding connect_block_def
  by (auto simp: Let_def link_fallthrough_wf split: option.splits)

lemma fwd_edgesD: "fwd_edges bs \<Longrightarrow> (k, b) \<in> set bs \<Longrightarrow> s \<in> set (successors b) \<Longrightarrow> k < s"
  unfolding fwd_edges_def by blast

lemma fwd_edgesI:
  "(\<And>k b s. (k, b) \<in> set bs \<Longrightarrow> s \<in> set (successors b) \<Longrightarrow> k < s) \<Longrightarrow> fwd_edges bs"
  unfolding fwd_edges_def by blast

lemma fwd_edges_update_pred:
  assumes fwd: "fwd_edges bs" and f: "\<And>b. successors (f b) = successors b"
  shows "fwd_edges (update_block k f bs)"
proof (rule fwd_edgesI)
  fix k' b' s
  assume "(k', b') \<in> set (update_block k f bs)" and s: "s \<in> set (successors b')"
  then obtain b where b: "(k', b) \<in> set bs" "b' = (if k' = k then f b else b)"
    unfolding update_block_mem by blast
  with f have "successors b' = successors b" by simp
  with s b(1) fwd show "k' < s" using fwd_edgesD by metis
qed

lemma fwd_edges_update_succ:
  assumes fwd: "fwd_edges bs" and lt: "k < t"
  shows "fwd_edges (update_block k (\<lambda>b. b\<lparr>successors := successors b @ [t]\<rparr>) bs)"
proof (rule fwd_edgesI)
  fix k' b' s
  assume "(k', b') \<in> set (update_block k (\<lambda>b. b\<lparr>successors := successors b @ [t]\<rparr>) bs)"
    and s: "s \<in> set (successors b')"
  then obtain b where b: "(k', b) \<in> set bs"
      "b' = (if k' = k then b\<lparr>successors := successors b @ [t]\<rparr> else b)"
    unfolding update_block_mem by blast
  show "k' < s"
  proof (cases "k' = k")
    case True
    with b s have "s \<in> set (successors b) \<or> s = t" by auto
    with True lt b(1) fwd show ?thesis using fwd_edgesD by metis
  next
    case False
    with b s fwd show ?thesis using fwd_edgesD by metis
  qed
qed

lemma link_fallthrough_fwd:
  assumes wf: "wf_blocks instrs bs"
    and srt: "sorted (map pc instrs)"
    and blk: "map_of bs k = Some block"
    and ne: "instructions block \<noteq> []"
    and fwd: "fwd_edges bs"
  shows "fwd_edges (link_fallthrough instrs bs block (last (instructions block)))"
proof (cases "find (\<lambda>i. pc i > pc (last (instructions block))) instrs")
  case None
  then show ?thesis using fwd by (simp add: link_fallthrough_def)
next
  case (Some nxt)
  show ?thesis
  proof (cases "getBlockContaining bs (pc nxt)")
    case None
    with Some show ?thesis using fwd by (simp add: link_fallthrough_def)
  next
    case (Some nb)
    have lt: "k < startPc nb"
      using link_target_forward [OF wf srt blk ne \<open>find _ instrs = Some nxt\<close> Some] .
    from blk have "(k, block) \<in> set bs" by (rule map_of_SomeD)
    with wf have sk: "startPc block = k" unfolding wf_blocks_def by blast
    have "fwd_edges (update_block k (\<lambda>b. b\<lparr>successors := successors b @ [startPc nb]\<rparr>) bs)"
      using fwd lt by (rule fwd_edges_update_succ)
    then have "fwd_edges (update_block (startPc nb)
                 (\<lambda>b. b\<lparr>predecessors := predecessors b @ [k]\<rparr>)
                 (update_block k (\<lambda>b. b\<lparr>successors := successors b @ [startPc nb]\<rparr>) bs))"
      by (rule fwd_edges_update_pred) simp
    with Some \<open>find _ instrs = Some nxt\<close> sk show ?thesis
      by (simp add: link_fallthrough_def)
  qed
qed

lemma connect_block_fwd:
  assumes "wf_blocks instrs bs" "sorted (map pc instrs)" "fwd_edges bs"
  shows "fwd_edges (connect_block instrs bs k)"
proof (cases "map_of bs k")
  case None
  then show ?thesis using assms by (simp add: connect_block_def)
next
  case (Some block)
  show ?thesis
  proof (cases "instructions block = []")
    case True
    with Some show ?thesis using assms by (simp add: connect_block_def)
  next
    case False
    have "fwd_edges (link_fallthrough instrs bs block (last (instructions block)))"
      using link_fallthrough_fwd [OF assms(1,2) Some False assms(3)] .
    with Some False assms(3) show ?thesis
      by (simp add: connect_block_def Let_def)
  qed
qed

lemma connect_all_inv:
  assumes "sorted (map pc instrs)"
  shows "wf_blocks instrs bs \<Longrightarrow> fwd_edges bs \<Longrightarrow>
     wf_blocks instrs (foldl (connect_block instrs) bs ks) \<and>
     fwd_edges (foldl (connect_block instrs) bs ks)"
proof (induction ks arbitrary: bs)
  case Nil
  then show ?case by simp
next
  case (Cons k ks)
  have "wf_blocks instrs (connect_block instrs bs k)"
    using Cons.prems(1) by (rule connect_block_wf)
  moreover have "fwd_edges (connect_block instrs bs k)"
    using Cons.prems(1) assms Cons.prems(2) by (rule connect_block_fwd)
  ultimately show ?case using Cons.IH by simp
qed

lemma set_add_distinct: "distinct xs \<Longrightarrow> distinct (set_add x xs)"
  by (simp add: set_add_def)

lemma find_leaders_distinct: "distinct ls \<Longrightarrow> distinct (find_leaders instrs ls)"
  by (induction instrs ls rule: find_leaders.induct)
     (auto simp: Let_def set_add_distinct split: list.splits)

lemma make_blocks_fwd: "fwd_edges (make_blocks instrs ls)"
  unfolding fwd_edges_def using make_blocks_entry by fastforce

lemma buildCFG_fwd:
  assumes "sorted (map pc instrs)"
  shows "fwd_edges (blocks (buildCFG instrs))"
proof -
  let ?ls = "sort (find_leaders instrs [0])"
  have "distinct (find_leaders instrs [0])" by (rule find_leaders_distinct) simp
  then have "wf_blocks instrs (make_blocks instrs ?ls)"
    by (intro wf_blocks_make) simp_all
  with assms make_blocks_fwd
  have "fwd_edges (foldl (connect_block instrs) (make_blocks instrs ?ls)
                      (map fst (make_blocks instrs ?ls)))"
    using connect_all_inv by blast
  then show ?thesis by (simp add: buildCFG_def Let_def)
qed

section \<open>The worklist loop returns\<close>

lemma wf_wl_rel: "wf (wl_rel B)"
  by (rule wf_subset [of "measure (\<lambda>x. Suc B - x)"]) (auto simp: wl_rel_def)

lemma succ_le_bound:
  assumes "(k, b) \<in> set bs" "s \<in> set (successors b)"
  shows "s \<le> succ_bound bs"
proof -
  have "finite (insert 0 (\<Union>(k, b) \<in> set bs. set (successors b)))" by auto
  moreover have "s \<in> insert 0 (\<Union>(k, b) \<in> set bs. set (successors b))" using assms by blast
  ultimately show ?thesis unfolding succ_bound_def by (rule Max_ge)
qed

lemma push_new_mset:
  "\<exists>K. mset (push_new wl xs) = mset wl + mset K \<and> set K \<subseteq> set xs"
proof (induction xs arbitrary: wl)
  case Nil
  have "mset (push_new wl []) = mset wl + mset [] \<and> set [] \<subseteq> set ([] :: nat list)" by simp
  then show ?case by blast
next
  case (Cons x xs)
  let ?wl = "if x \<in> set wl then wl else wl @ [x]"
  from Cons [of ?wl] obtain K where K: "mset (push_new ?wl xs) = mset ?wl + mset K" "set K \<subseteq> set xs"
    by blast
  show ?case
  proof (cases "x \<in> set wl")
    case True
    with K have "mset (push_new wl (x # xs)) = mset wl + mset K \<and> set K \<subseteq> set (x # xs)" by auto
    then show ?thesis by blast
  next
    case False
    with K have "mset (push_new wl (x # xs)) = mset wl + mset (x # K) \<and> set (x # K) \<subseteq> set (x # xs)"
      by auto
    then show ?thesis by blast
  qed
qed

lemma worklist_step_decreases:
  assumes fwd: "fwd_edges (blocks cfg)"
  shows "(mset (fst (worklist_step cfg h rest st)), mset (h # rest))
           \<in> mult1 (wl_rel (succ_bound (blocks cfg)))"
proof -
  have "\<exists>K. mset (fst (worklist_step cfg h rest st)) = mset rest + mset K \<and>
             (\<forall>s \<in> set K. h < s \<and> s \<le> succ_bound (blocks cfg))"
  proof (cases "map_of (blocks cfg) h")
    case None
    then have "mset (fst (worklist_step cfg h rest st)) = mset rest + mset []"
      by (simp add: worklist_step_def)
    then show ?thesis by fastforce
  next
    case (Some block)
    then have mem: "(h, block) \<in> set (blocks cfg)" by (rule map_of_SomeD)
    from Some have "fst (worklist_step cfg h rest st) = rest \<or>
                    fst (worklist_step cfg h rest st) = push_new rest (successors block)"
      by (simp add: worklist_step_def Let_def)
    then show ?thesis
    proof
      assume "fst (worklist_step cfg h rest st) = rest"
      then have "mset (fst (worklist_step cfg h rest st)) = mset rest + mset []" by simp
      then show ?thesis by fastforce
    next
      assume eq: "fst (worklist_step cfg h rest st) = push_new rest (successors block)"
      obtain K where K: "mset (push_new rest (successors block)) = mset rest + mset K"
          "set K \<subseteq> set (successors block)"
        using push_new_mset by blast
      have "\<forall>s \<in> set K. h < s \<and> s \<le> succ_bound (blocks cfg)"
        using K(2) mem fwd fwd_edgesD succ_le_bound by (metis subsetD)
      with K(1) eq show ?thesis by auto
    qed
  qed
  then obtain K where K: "mset (fst (worklist_step cfg h rest st)) = mset rest + mset K"
      "\<forall>s \<in> set K. h < s \<and> s \<le> succ_bound (blocks cfg)" by blast
  show ?thesis
  proof (rule mult1I [of _ h "mset rest" _ "mset K"])
    show "mset (h # rest) = add_mset h (mset rest)" by simp
    show "mset (fst (worklist_step cfg h rest st)) = mset rest + mset K" by (rule K(1))
    show "\<And>b. b \<in># mset K \<Longrightarrow> (b, h) \<in> wl_rel (succ_bound (blocks cfg))"
      using K(2) by (simp add: wl_rel_def)
  qed
qed

lemma worklist_loop_terminates:
  assumes fwd: "fwd_edges (blocks cfg)"
  shows "\<exists>st'. worklist_loop cfg wl st = Some st'"
proof -
  have wf: "wf (mult1 (wl_rel (succ_bound (blocks cfg))))"
    by (rule wf_mult1 [OF wf_wl_rel])
  have "\<forall>wl st. mset wl = M \<longrightarrow> (\<exists>st'. worklist_loop cfg wl st = Some st')" for M
    using wf
  proof (induction M rule: wf_induct_rule)
    case (less M)
    show ?case
    proof (intro allI impI)
      fix wl st
      assume M: "mset wl = M"
      show "\<exists>st'. worklist_loop cfg wl st = Some st'"
      proof (cases wl)
        case Nil
        then show ?thesis by (simp add: worklist_loop.simps [of cfg "[]" st])
      next
        case (Cons h rest)
        have "(mset (fst (worklist_step cfg h rest st)), M)
                 \<in> mult1 (wl_rel (succ_bound (blocks cfg)))"
          using worklist_step_decreases [OF fwd, of h rest st] Cons M by simp
        then have "\<exists>st'. worklist_loop cfg (fst (worklist_step cfg h rest st))
                            (snd (worklist_step cfg h rest st)) = Some st'"
          using less by blast
        with Cons show ?thesis by (simp add: worklist_loop.simps [of cfg "h # rest" st])
      qed
    qed
  qed
  then show ?thesis by blast
qed

lemma traceStackAtPC_returns:
  assumes "fwd_edges (blocks cfg)"
  shows "\<exists>st. traceStackAtPC cfg p = Some st"
proof (cases "getBlockContaining (blocks cfg) p")
  case None
  then show ?thesis by (simp add: traceStackAtPC_def)
next
  case (Some tb)
  let ?s0 = "case entryBlock cfg of None \<Rightarrow> Map.empty | Some e \<Rightarrow> [startPc e \<mapsto> empty_state]"
  obtain sts where "worklist_loop cfg [startPc tb] ?s0 = Some sts"
    using worklist_loop_terminates [OF assms] by blast
  with Some show ?thesis
    by (simp add: traceStackAtPC_def Let_def split: option.splits)
qed

section \<open>Well-formed input and the count of DELEGATECALL bytes\<close>

lemma hex_digit_facts:
  assumes "is_digit 16 c"
  shows "\<not> is_ws c" "c \<noteq> CHR ''-''" "c \<noteq> CHR ''+''" "c \<noteq> CHR ''x''" "c \<noteq> CHR ''X''"
    "digit_val c = Some (nibble c)" "nibble c < 16"
  using assms
  by (auto simp: is_digit_def is_ws_def digit_val_def nibble_def Let_def split: if_splits option.splits)

lemma parseInt_hex_pair:
  assumes "is_digit 16 a" "is_digit 16 b"
  shows "parseInt [a, b] 16 = Num (int (16 * nibble a + nibble b))"
  using assms hex_digit_facts [OF assms(1)] hex_digit_facts [OF assms(2)]
  by (simp add: parseInt_def digits_value_def Let_def)

lemma parseBytes_chunks:
  "even (length h) \<Longrightarrow> list_all (is_digit 16) h \<Longrightarrow>
     map (\<lambda>c. parseInt c 16) (chunks2 h) = map (\<lambda>n. Num (int n)) (hex_byte_values h)"
  by (induction h rule: chunks2.induct) (simp_all add: parseInt_hex_pair)

lemma hex_byte_values_range:
  "list_all (is_digit 16) h \<Longrightarrow> \<forall>n \<in> set (hex_byte_values h). n < 256"
proof (induction h rule: hex_byte_values.induct)
  case (1 a b rest)
  then have "nibble a < 16" "nibble b < 16" using hex_digit_facts(7) by simp_all
  with 1 show ?case by simp
qed simp_all

lemma parseBytes_well_formed:
  assumes "well_formed_hex bytecode"
  shows "parseBytes bytecode = map (\<lambda>n. Num (int n)) (hex_byte_values (strip0x bytecode))"
  using assms by (simp add: well_formed_hex_def parseBytes_def parseBytes_chunks)


lemma OPCODES_name_delegatecall:
  "OPCODES n = Some info \<Longrightarrow> (name info = ''DELEGATECALL'') = (n = 0xf4)"
  by (auto simp: OPCODES_def addOpcode_def Let_def split: if_splits)

lemma OPCODES_pushBytes:
  "OPCODES n = Some info \<Longrightarrow>
     pushBytes info = (if 0x60 \<le> n \<and> n < 0x80 then Some (nat (n - 0x5f)) else None)"
  by (auto simp: OPCODES_def addOpcode_def Let_def nat_diff_distrib split: if_splits)

lemma OPCODES_push_defined:
  "0x60 \<le> n \<Longrightarrow> n < 0x80 \<Longrightarrow> \<exists>info. OPCODES n = Some info"
  by (simp add: OPCODES_def Let_def)

lemma decode_step_op_delegatecall:
  "(op (fst (decode_step bytes p)) = ''DELEGATECALL'') = (bytes ! p = Num 0xf4)"
proof (cases "bytes ! p")
  case NaN
  then show ?thesis by (simp add: decode_step_def lookupOpcode_def)
next
  case (Num n)
  show ?thesis
  proof (cases "OPCODES n")
    case None
    moreover from None have "n \<noteq> 0xf4" by (auto simp: OPCODES_def)
    ultimately show ?thesis using Num by (simp add: decode_step_def lookupOpcode_def)
  next
    case (Some info)
    have "op (fst (decode_step bytes p)) = name info"
      using Num Some by (simp add: decode_step_def lookupOpcode_def Let_def split: option.splits)
    with OPCODES_name_delegatecall [OF Some] Num show ?thesis by simp
  qed
qed

lemma decode_step_next:
  "snd (decode_step bytes p) =
     (case bytes ! p of
        NaN \<Rightarrow> p + 1
      | Num n \<Rightarrow> if 0x60 \<le> n \<and> n < 0x80 then p + 1 + nat (n - 0x5f) else p + 1)"
proof (cases "bytes ! p")
  case NaN
  then show ?thesis by (simp add: decode_step_def lookupOpcode_def)
next
  case (Num n)
  show ?thesis
  proof (cases "OPCODES n")
    case None
    moreover from None have "\<not> (0x60 \<le> n \<and> n < 0x80)" using OPCODES_push_defined by fastforce
    ultimately show ?thesis using Num by (simp add: decode_step_def lookupOpcode_def)
  next
    case (Some info)
    show ?thesis
      using Num Some OPCODES_pushBytes [OF Some]
      by (simp add: decode_step_def lookupOpcode_def Let_def)
  qed
qed

lemma count_decode_loop:
  "length (filter (\<lambda>i. op i = ''DELEGATECALL'') (decode_loop (map (\<lambda>n. Num (int n)) bs) p))
     = count_delegatecall_bytes (drop p bs)"
proof (induction "map (\<lambda>n. Num (int n)) bs" p rule: decode_loop.induct)
  case (1 p)
  let ?bytes = "map (\<lambda>n. Num (int n)) bs"
  show ?case
  proof (cases "p < length bs")
    case False
    then show ?thesis by (simp add: decode_loop.simps [of ?bytes p])
  next
    case True
    then have byte: "?bytes ! p = Num (int (bs ! p))" by simp
    from True have dr: "drop p bs = bs ! p # drop (Suc p) bs" by (simp add: Cons_nth_drop_Suc)
    have IH: "length (filter (\<lambda>i. op i = ''DELEGATECALL'') (decode_loop ?bytes (snd (decode_step ?bytes p))))
        = count_delegatecall_bytes (drop (snd (decode_step ?bytes p)) bs)"
      using 1 True by simp
    have unf: "decode_loop ?bytes p = fst (decode_step ?bytes p) # decode_loop ?bytes (snd (decode_step ?bytes p))"
      using True by (simp add: decode_loop.simps [of ?bytes p])
    show ?thesis
    proof (cases "0x60 \<le> bs ! p \<and> bs ! p \<le> 0x7f")
      case push: True
      then have nx: "snd (decode_step ?bytes p) = p + 1 + (bs ! p - 0x5f)"
        using byte by (simp add: decode_step_next nat_diff_distrib)
      have "op (fst (decode_step ?bytes p)) \<noteq> ''DELEGATECALL''"
        using push byte by (simp add: decode_step_op_delegatecall)
      with unf IH nx dr push show ?thesis by (simp add: add.commute)
    next
      case nopush: False
      then have nx: "snd (decode_step ?bytes p) = p + 1"
        using byte by (auto simp: decode_step_next)
      have "(op (fst (decode_step ?bytes p)) = ''DELEGATECALL'') = (bs ! p = 0xf4)"
        using byte by (simp add: decode_step_op_delegatecall)
      with unf IH nx dr nopush show ?thesis by auto
    qed
  qed
qed

section \<open>Both modes of the scanner\<close>

lemma cfg_sites_ids:
  assumes "fwd_edges (blocks cfg)"
  shows "\<exists>ss. cfg_sites cfg instrs = Some ss \<and>
           map (\<lambda>s. (site_id s, site_pc s)) ss =
             map (\<lambda>i. (''site-'' @ dec_digits (pc i), pc i)) (filter (\<lambda>i. op i = ''DELEGATECALL'') instrs)"
proof (induction instrs)
  case Nil
  then show ?case by simp
next
  case (Cons i instrs)
  then obtain ss where ss: "cfg_sites cfg instrs = Some ss"
      "map (\<lambda>s. (site_id s, site_pc s)) ss =
             map (\<lambda>i. (''site-'' @ dec_digits (pc i), pc i)) (filter (\<lambda>i. op i = ''DELEGATECALL'') instrs)" by blast
  obtain st where st: "traceStackAtPC cfg (pc i) = Some st"
    using traceStackAtPC_returns [OF assms] by blast
  show ?case
  proof (cases "op i = ''DELEGATECALL''")
    case True
    with ss st show ?thesis by (simp add: Let_def make_site_def)
  next
    case False
    with ss show ?thesis by simp
  qed
qed

lemma linear_sites_ids:
  "map (\<lambda>s. (site_id s, site_pc s)) (linear_sites instrs st) =
     map (\<lambda>i. (''site-'' @ dec_digits (pc i), pc i)) (filter (\<lambda>i. op i = ''DELEGATECALL'') instrs)"
  by (induction instrs arbitrary: st) (simp_all add: Let_def make_site_def)

lemma detectProxyPatterns_ids:
  "map (\<lambda>s. (site_id s, site_pc s)) (detectProxyPatterns bytecode ss) = map (\<lambda>s. (site_id s, site_pc s)) ss"
  by (simp add: detectProxyPatterns_def Let_def comp_def)

lemma build_report_sites:
  "map (\<lambda>s. (rs_id s, rs_pc s)) (sites (build_report bytecode opts ss)) = map (\<lambda>s. (site_id s, site_pc s)) ss"
proof -
  have "map (\<lambda>s. (rs_id s, rs_pc s)) (sites (build_report bytecode opts ss))
      = map (\<lambda>s. (site_id s, site_pc s)) (detectProxyPatterns bytecode ss)"
    by (simp add: build_report_def Let_def comp_def)
  then show ?thesis by (simp add: detectProxyPatterns_ids)
qed

lemma build_report_count: "delegatecallCount (build_report bytecode opts ss) = length ss"
  by (simp add: build_report_def Let_def)

lemma decodeBytecode_sorted: "sorted (map pc (decodeBytecode bytecode))"
  by (simp add: decodeBytecode_def decode_loop_sorted)

text \<open>What both modes compute about the sites, whatever their classification.\<close>

lemma analyzeBytecode_returns:
  "\<exists>r. analyzeBytecode bytecode opts = Some r \<and>
       map (\<lambda>s. (rs_id s, rs_pc s)) (sites r) =
         map (\<lambda>i. (''site-'' @ dec_digits (pc i), pc i))
             (filter (\<lambda>i. op i = ''DELEGATECALL'') (decodeBytecode bytecode)) \<and>
       delegatecallCount r = length (filter (\<lambda>i. op i = ''DELEGATECALL'') (decodeBytecode bytecode)) \<and>
       overallRisk r = overall_risk (sites r)"
proof (cases "useCFG opts \<noteq> Some False")
  case True
  let ?instrs = "decodeBytecode bytecode"
  have "fwd_edges (blocks (buildCFG ?instrs))"
    using decodeBytecode_sorted by (rule buildCFG_fwd)
  then obtain ss where ss: "cfg_sites (buildCFG ?instrs) ?instrs = Some ss"
      "map (\<lambda>s. (site_id s, site_pc s)) ss =
         map (\<lambda>i. (''site-'' @ dec_digits (pc i), pc i)) (filter (\<lambda>i. op i = ''DELEGATECALL'') ?instrs)"
    using cfg_sites_ids by blast
  have r: "analyzeBytecode bytecode opts = Some (build_report bytecode opts ss)"
    using True ss(1) by (simp add: analyzeBytecode_def Let_def)
  have "length ss = length (filter (\<lambda>i. op i = ''DELEGATECALL'') ?instrs)"
    using arg_cong [OF ss(2), of length] by simp
  moreover have "overallRisk (build_report bytecode opts ss) = overall_risk (sites (build_report bytecode opts ss))"
    by (simp add: build_report_def Let_def)
  ultimately show ?thesis using r ss(2) by (simp add: build_report_sites build_report_count)
next
  case False
  let ?instrs = "decodeBytecode bytecode"
  let ?ss = "linear_sites ?instrs []"
  have r: "analyzeBytecode bytecode opts = Some (build_report bytecode opts ?ss)"
    using False by (simp add: analyzeBytecode_def Let_def)
  have "length ?ss = length (filter (\<lambda>i. op i = ''DELEGATECALL'') ?instrs)"
    using arg_cong [OF linear_sites_ids [of ?instrs "[]"], of length] by simp
  moreover have "overallRisk (build_report bytecode opts ?ss) = overall_risk (sites (build_report bytecode opts ?ss))"
    by (simp add: build_report_def Let_def)
  ultimately show ?thesis using r by (simp add: build_report_sites build_report_count linear_sites_ids)
qed

lemma risk_fold:
  "order_index acc \<le> order_index (foldl (\<lambda>acc r. if order_index r > order_index acc then r else acc) acc xs) \<and>
   (\<forall>x \<in> set xs. order_index x \<le> order_index (foldl (\<lambda>acc r. if order_index r > order_index acc then r else acc) acc xs)) \<and>
   (foldl (\<lambda>acc r. if order_index r > order_index acc then r else acc) acc xs = acc \<or>
    foldl (\<lambda>acc r. if order_index r > order_index acc then r else acc) acc xs \<in> set xs)"
proof (induction xs arbitrary: acc)
  case Nil
  then show ?case by simp
next
  case (Cons x xs)
  let ?a = "if order_index x > order_index acc then x else acc"
  from Cons [of ?a] show ?case by (auto split: if_splits)
qed

lemma order_index_low: "order_index r \<le> 0 \<Longrightarrow> r = risk_low"
  by (cases r) simp_all

lemma overall_risk_max:
  "(overall_risk rs = None \<longleftrightarrow> rs = []) \<and>
   (\<forall>m. overall_risk rs = Some m \<longrightarrow>
        m \<in> set (map rs_risk rs) \<and> (\<forall>s \<in> set rs. order_index (rs_risk s) \<le> order_index m))"
proof (cases rs)
  case Nil
  then show ?thesis by (simp add: overall_risk_def)
next
  case (Cons a as)
  let ?xs = "map rs_risk rs"
  let ?g = "foldl (\<lambda>acc r. if order_index r > order_index acc then r else acc) risk_low ?xs"
  have g: "overall_risk rs = Some ?g" using Cons by (simp add: overall_risk_def)
  have ub: "\<forall>x \<in> set ?xs. order_index x \<le> order_index ?g" using risk_fold [of risk_low ?xs] by blast
  have "?g = risk_low \<or> ?g \<in> set ?xs" using risk_fold [of risk_low ?xs] by blast
  then have "?g \<in> set ?xs"
  proof
    assume low: "?g = risk_low"
    have "rs_risk a \<in> set ?xs" using Cons by simp
    with ub low have "order_index (rs_risk a) \<le> 0" by fastforce
    then have "rs_risk a = risk_low" by (rule order_index_low)
    with low Cons show ?thesis by simp
  qed
  with g ub Cons show ?thesis by auto
qed

lemma unknown_mnemonic_cfg:
  "applyInstructionToStack (CHR ''0'' # CHR ''x'' # r) pd st = st"
  by (simp add: applyInstructionToStack_def startsWith_def getOpcodeInfo_def known_def)

lemma unknown_mnemonic_linear:
  "applyInstructionToStack_linear (CHR ''0'' # CHR ''x'' # r) pd st = butlast st"
  by (simp add: applyInstructionToStack_linear_def startsWith_def butlast_conv_take)

section \<open>Immediates of PUSH instructions\<close>

lemma decode_loop_mem:
  "ins \<in> set (decode_loop bytes p0) \<Longrightarrow>
     \<exists>p. p0 \<le> p \<and> p < length bytes \<and> ins = fst (decode_step bytes p)"
proof (induction bytes p0 rule: decode_loop.induct)
  case (1 bytes p0)
  show ?case
  proof (cases "p0 < length bytes")
    case False
    with "1.prems" show ?thesis by (simp add: decode_loop.simps [of bytes p0])
  next
    case True
    with "1.prems" have "ins = fst (decode_step bytes p0) \<or>
        ins \<in> set (decode_loop bytes (snd (decode_step bytes p0)))"
      by (simp add: decode_loop.simps [of bytes p0])
    then show ?thesis
    proof
      assume "ins = fst (decode_step bytes p0)"
      with True show ?thesis by blast
    next
      assume "ins \<in> set (decode_loop bytes (snd (decode_step bytes p0)))"
      with "1.IH" True obtain p where "snd (decode_step bytes p0) \<le> p" "p < length bytes"
          "ins = fst (decode_step bytes p)" by blast
      moreover have "p0 < snd (decode_step bytes p0)" by (rule decode_step_advances)
      ultimately have "p0 \<le> p \<and> p < length bytes \<and> ins = fst (decode_step bytes p)" by simp
      then show ?thesis by (rule exI)
    qed
  qed
qed

lemma OPCODES_push_name:
  "OPCODES n = Some info \<Longrightarrow> pushBytes info = Some N \<Longrightarrow>
     1 \<le> N \<and> N \<le> 32 \<and> n = 0x5f + int N \<and> name info = ''PUSH'' @ dec_digits N"
  by (auto simp: OPCODES_def addOpcode_def Let_def split: if_splits)

lemma decode_step_pushData:
  assumes "pushData (fst (decode_step bytes p)) = Some d"
  shows "\<exists>N. 1 \<le> N \<and> N \<le> 32 \<and> bytes ! p = Num (0x5f + int N) \<and>
             op (fst (decode_step bytes p)) = ''PUSH'' @ dec_digits N \<and>
             pc (fst (decode_step bytes p)) = p + 1 + N \<and>
             d = ''0x'' @ concat (map hex2 (take N (drop (p + 1) bytes)))"
proof (cases "bytes ! p")
  case NaN
  with assms show ?thesis by (simp add: decode_step_def lookupOpcode_def)
next
  case (Num n)
  show ?thesis
  proof (cases "OPCODES n")
    case None
    with Num assms show ?thesis by (simp add: decode_step_def lookupOpcode_def)
  next
    case (Some info)
    show ?thesis
    proof (cases "pushBytes info")
      case None
      with Num Some assms show ?thesis by (simp add: decode_step_def lookupOpcode_def)
    next
      case (Some N)
      have props: "1 \<le> N" "N \<le> 32" "n = 0x5f + int N" "name info = ''PUSH'' @ dec_digits N"
        using OPCODES_push_name [OF \<open>OPCODES n = Some info\<close> Some] by simp_all
      with Num \<open>OPCODES n = Some info\<close> Some assms show ?thesis
        by (simp add: decode_step_def lookupOpcode_def Let_def slice_def)
    qed
  qed
qed

lemma hex_digits_length: "n < 16 \<Longrightarrow> length (hex_digits n) = 1"
  by (simp add: hex_digits.simps [of n])

lemma hex2_length:
  assumes "n < 256"
  shows "length (hex2 (Num (int n))) = 2"
proof (cases "n < 16")
  case True
  then show ?thesis by (simp add: hex2_def toString16_def padStart2_def hex_digits_length)
next
  case False
  with assms have "n div 16 < 16" by simp
  then have "length (hex_digits (n div 16)) = 1" by (rule hex_digits_length)
  with False show ?thesis
    by (simp add: hex2_def toString16_def padStart2_def hex_digits.simps [of n])
qed

lemma concat_hex2_length:
  "\<forall>n \<in> set ns. n < 256 \<Longrightarrow> length (concat (map hex2 (map (\<lambda>n. Num (int n)) ns))) = 2 * length ns"
  by (induction ns) (simp_all add: hex2_length)

section \<open>The pattern detector against its description\<close>

lemma occurs_at_bound: "nd \<noteq> [] \<Longrightarrow> occurs_at hay nd i \<Longrightarrow> i < length hay"
  by (cases "i < length hay") (auto simp: occurs_at_def)

lemma indexOf_None_iff:
  assumes "nd \<noteq> []"
  shows "(indexOf hay nd from = None) = (\<forall>j \<ge> from. \<not> occurs_at hay nd j)"
proof
  assume none: "indexOf hay nd from = None"
  show "\<forall>j \<ge> from. \<not> occurs_at hay nd j"
  proof (intro allI impI notI)
    fix j assume j: "from \<le> j" "occurs_at hay nd j"
    then have "j < length hay" using occurs_at_bound [OF assms] by blast
    with j have "j \<in> set [min from (length hay) ..< Suc (length hay)]" by simp
    with none j(2) show False unfolding indexOf_def find_None_iff by blast
  qed
next
  assume all: "\<forall>j \<ge> from. \<not> occurs_at hay nd j"
  have "\<not> occurs_at hay nd x" if "x \<in> set [min from (length hay) ..< Suc (length hay)]" for x
  proof (cases "from \<le> x")
    case True
    with all show ?thesis by blast
  next
    case False
    from that have "min from (length hay) \<le> x" by auto
    with False have "length hay \<le> x" by linarith
    then show ?thesis using occurs_at_bound [OF assms, of hay x] by fastforce
  qed
  then show "indexOf hay nd from = None" unfolding indexOf_def find_None_iff by blast
qed

lemma indexOf_first:
  assumes "nd \<noteq> []" and "indexOf hay nd 0 = Some idx"
  shows "occurs_at hay nd idx \<and> (\<forall>j. occurs_at hay nd j \<longrightarrow> idx \<le> j)"
proof -
  from assms(2) obtain i where i: "i < length [0 ..< Suc (length hay)]"
      "occurs_at hay nd ([0 ..< Suc (length hay)] ! i)" "idx = [0 ..< Suc (length hay)] ! i"
      "\<forall>j<i. \<not> occurs_at hay nd ([0 ..< Suc (length hay)] ! j)"
    unfolding indexOf_def find_Some_iff by auto
  from i(1) have ii: "[0 ..< Suc (length hay)] ! i = i"
    by (metis add_0 diff_zero length_upt nth_upt)
  have "idx \<le> j" if "occurs_at hay nd j" for j
  proof (rule ccontr)
    assume "\<not> idx \<le> j"
    with i(3) ii have lt: "j < i" by simp
    with i(1) have "[0 ..< Suc (length hay)] ! j = j"
      by (metis add_0 diff_zero length_upt less_trans nth_upt)
    with i(4) lt that show False by auto
  qed
  with i(2,3) show ?thesis by blast
qed

lemma detectEip1167_spec: "detectEip1167 clean = contains_eip1167 (toLowerCase clean)"
proof -
  let ?L = "toLowerCase clean"
  have pne: "EIP1167_PREFIX \<noteq> []" and sne: "EIP1167_SUFFIX \<noteq> []"
    by (simp_all add: EIP1167_PREFIX_def EIP1167_SUFFIX_def)
  show ?thesis
  proof (cases "indexOf ?L EIP1167_PREFIX 0")
    case None
    then have "\<forall>j. \<not> occurs_at ?L EIP1167_PREFIX j"
      using indexOf_None_iff [OF pne, of ?L 0] by simp
    then have "\<not> contains_eip1167 ?L" by (simp add: contains_eip1167_def)
    with None show ?thesis by (simp add: detectEip1167_def Let_def)
  next
    case (Some idx)
    have first: "occurs_at ?L EIP1167_PREFIX idx" "\<And>j. occurs_at ?L EIP1167_PREFIX j \<Longrightarrow> idx \<le> j"
      using indexOf_first [OF pne Some] by blast+
    let ?from = "idx + length EIP1167_PREFIX + 40"
    have "detectEip1167 clean = (indexOf ?L EIP1167_SUFFIX ?from \<noteq> None)"
      using Some by (simp add: detectEip1167_def Let_def split: option.splits)
    also have "\<dots> = (\<exists>j \<ge> ?from. occurs_at ?L EIP1167_SUFFIX j)"
      by (simp add: indexOf_None_iff [OF sne])
    also have "\<dots> = contains_eip1167 ?L"
    proof
      assume "\<exists>j \<ge> ?from. occurs_at ?L EIP1167_SUFFIX j"
      with first(1) show "contains_eip1167 ?L" unfolding contains_eip1167_def by blast
    next
      assume "contains_eip1167 ?L"
      then obtain i j where ij: "occurs_at ?L EIP1167_PREFIX i" "occurs_at ?L EIP1167_SUFFIX j"
          "i + length EIP1167_PREFIX + 40 \<le> j" unfolding contains_eip1167_def by blast
      from first(2) [OF ij(1)] ij(3) have "?from \<le> j" by simp
      with ij(2) show "\<exists>j \<ge> ?from. occurs_at ?L EIP1167_SUFFIX j" by blast
    qed
    finally show ?thesis .
  qed
qed

lemma set_map_filter: "set (List.map_filter f xs) = {y. \<exists>x \<in> set xs. f x = Some y}"
  by (induction xs) (auto simp: List.map_filter_simps split: option.splits)

lemma detectDiamondPattern_spec: "detectDiamondPattern ss = diamond_shape ss"
proof -
  let ?st = "filter (\<lambda>s. tc_type (classification s) = storage) ss"
  have len: "length ?st \<le> length ss" by simp
  have sets: "set (List.map_filter (\<lambda>s. storageSlotLiteral (classification s)) ?st)
           = {sl. \<exists>s \<in> set ss. tc_type (classification s) = storage \<and>
                       storageSlotLiteral (classification s) = Some sl}"
    by (auto simp: set_map_filter)
  show ?thesis
  proof (cases "length ?st < 2")
    case True
    then show ?thesis by (simp add: detectDiamondPattern_def diamond_shape_def Let_def)
  next
    case False
    with len have "\<not> length ss < 2" by linarith
    with False show ?thesis
      unfolding detectDiamondPattern_def diamond_shape_def Let_def sets by simp
  qed
qed

section \<open>What the two branches of the disassembler record, and which literals are addresses\<close>

text \<open>The unknown-opcode branch records the cursor of the opcode byte; the branch for
  known opcodes records the cursor after the instruction.\<close>

lemma decode_step_pc_unknown:
  "lookupOpcode (bytes ! p) = None \<Longrightarrow> pc (fst (decode_step bytes p)) = p"
  by (simp add: decode_step_def)

lemma decode_step_pc_known:
  "lookupOpcode (bytes ! p) = Some info \<Longrightarrow>
     pc (fst (decode_step bytes p)) = snd (decode_step bytes p) \<and> p < pc (fst (decode_step bytes p))"
  by (simp add: decode_step_def Let_def split: option.splits)

text \<open>A literal is classified \<open>hardcoded\<close> exactly when, without its \<open>0x\<close>, it has 38 or
  40 characters.\<close>

lemma classifyTarget_literal_hardcoded:
  "(tc_type (classifyTarget (Literal v)) = hardcoded) =
     (length (strip0x v) = 38 \<or> length (strip0x v) = 40)"
  by (auto simp: classifyTarget_def normalize_def Let_def)

section \<open>The claims\<close>

subsection \<open>C1: linear mode and CFG mode\<close>

text \<open>
  Both modes list the same sites, one per DELEGATECALL instruction of the disassembly
  and in its order, with the same program counters and identifiers; and both return for
  every input string. This is the half of C1 about site PCs.
\<close>

lemma modes_list_the_same_sites:
  "\<exists>rc rl. analyzeBytecode bytecode (opts\<lparr>useCFG := Some True\<rparr>) = Some rc \<and>
           analyzeBytecode bytecode (opts\<lparr>useCFG := Some False\<rparr>) = Some rl \<and>
           map rs_pc (sites rc) = map pc (filter (\<lambda>i. op i = ''DELEGATECALL'') (decodeBytecode bytecode)) \<and>
           map rs_pc (sites rc) = map rs_pc (sites rl) \<and>
           map rs_id (sites rc) = map rs_id (sites rl) \<and>
           delegatecallCount rc = delegatecallCount rl"
proof -
  let ?dc = "filter (\<lambda>i. op i = ''DELEGATECALL'') (decodeBytecode bytecode)"
  let ?f = "map (\<lambda>i. (''site-'' @ dec_digits (pc i), pc i)) ?dc"
  obtain rc where rc: "analyzeBytecode bytecode (opts\<lparr>useCFG := Some True\<rparr>) = Some rc"
      "map (\<lambda>s. (rs_id s, rs_pc s)) (sites rc) = ?f"
      "delegatecallCount rc = length ?dc"
    using analyzeBytecode_returns by blast
  obtain rl where rl: "analyzeBytecode bytecode (opts\<lparr>useCFG := Some False\<rparr>) = Some rl"
      "map (\<lambda>s. (rs_id s, rs_pc s)) (sites rl) = ?f"
      "delegatecallCount rl = length ?dc"
    using analyzeBytecode_returns by blast
  have "map snd (map (\<lambda>s. (rs_id s, rs_pc s)) (sites rc)) = map snd ?f" using rc(2) by simp
  then have pc1: "map rs_pc (sites rc) = map pc ?dc" by (simp add: comp_def)
  have "map snd (map (\<lambda>s. (rs_id s, rs_pc s)) (sites rl)) = map snd ?f" using rl(2) by simp
  then have pc2: "map rs_pc (sites rl) = map pc ?dc" by (simp add: comp_def)
  have "map fst (map (\<lambda>s. (rs_id s, rs_pc s)) (sites rc)) = map fst (map (\<lambda>s. (rs_id s, rs_pc s)) (sites rl))"
    using rc(2) rl(2) by simp
  then have ids: "map rs_id (sites rc) = map rs_id (sites rl)" by (simp add: comp_def)
  show ?thesis using rc(1,3) rl(1,3) pc1 pc2 ids by simp
qed

text \<open>
  C1 against the code: the program PUSH1 00, CALLDATALOAD, PUSH1 00, PUSH1 00,
  DELEGATECALL is straight-line (no JUMP, no JUMPI), and the two modes give its single
  site different types. In CFG mode the only block of the graph ends at 4, the number of
  instructions minus one, so the DELEGATECALL at pc 8 lies in no block, the trace is empty
  and the type is \<open>unknown\<close>. In linear mode the transfer function is applied to the
  DELEGATECALL before the target is read, so \<open>stack[length - 2]\<close> is taken from the stack
  after the instruction: the slot read is the result of CALLDATALOAD, type \<open>calldata\<close>.
\<close>

theorem modes_differ_on_straight_line_code:
  "map (\<lambda>i. (pc i, op i)) (decodeBytecode ''60003560006000f4'') =
     [(2, ''PUSH1''), (3, ''CALLDATALOAD''), (5, ''PUSH1''), (7, ''PUSH1''), (8, ''DELEGATECALL'')] \<and>
   map (\<lambda>(k, b). (startPc b, endPc b)) (blocks (buildCFG (decodeBytecode ''60003560006000f4'')))
     = [(0, 4)] \<and>
   traceStackAtPC (buildCFG (decodeBytecode ''60003560006000f4'')) 8 = Some [] \<and>
   map_option (\<lambda>r. map (\<lambda>s. (rs_pc s, tc_type (rs_classification s))) (sites r))
       (analyzeBytecode ''60003560006000f4'' cfg_opts) = Some [(8, unknown)] \<and>
   map targetExpression (linear_sites (decodeBytecode ''60003560006000f4'') [])
     = [Calldata (Literal ''0x00'')] \<and>
   map_option (\<lambda>r. map (\<lambda>s. (rs_pc s, tc_type (rs_classification s))) (sites r))
       (analyzeBytecode ''60003560006000f4'' linear_opts) = Some [(8, calldata)]"
  by code_simp

subsection \<open>C2: the count of DELEGATECALL sites\<close>

text \<open>
  C2: for every well-formed hex bytecode and every choice of options (CFG mode or linear
  mode), the analysis returns a report whose \<open>delegatecallCount\<close> is the number of bytes
  \<open>0xf4\<close> of the byte vector outside PUSH immediates, which is the number of DELEGATECALL
  instructions of the disassembly.
\<close>

theorem delegatecallCount_counts_opcode_bytes:
  assumes "well_formed_hex bytecode"
  shows "\<exists>r. analyzeBytecode bytecode opts = Some r \<and>
       delegatecallCount r = count_delegatecall_bytes (hex_byte_values (strip0x bytecode)) \<and>
       delegatecallCount r = length (filter (\<lambda>i. op i = ''DELEGATECALL'') (decodeBytecode bytecode))"
proof -
  obtain r where r: "analyzeBytecode bytecode opts = Some r"
      "delegatecallCount r = length (filter (\<lambda>i. op i = ''DELEGATECALL'') (decodeBytecode bytecode))"
    using analyzeBytecode_returns by blast
  have "length (filter (\<lambda>i. op i = ''DELEGATECALL'') (decodeBytecode bytecode))
      = count_delegatecall_bytes (hex_byte_values (strip0x bytecode))"
    using count_decode_loop [of "hex_byte_values (strip0x bytecode)" 0]
    by (simp add: decodeBytecode_def parseBytes_well_formed [OF assms])
  with r show ?thesis by simp
qed

text \<open>C2 at a concrete input: in \<open>0x60f4f4\<close> the first \<open>f4\<close> is the immediate of a PUSH1,
  the second one is a DELEGATECALL; both modes count one site.\<close>

theorem delegatecallCount_counts_opcode_bytes_witness:
  "well_formed_hex ''0x60f4f4'' \<and>
   map_option delegatecallCount (analyzeBytecode ''0x60f4f4'' cfg_opts) = Some 1 \<and>
   map_option delegatecallCount (analyzeBytecode ''0x60f4f4'' linear_opts) = Some 1 \<and>
   hex_byte_values (strip0x ''0x60f4f4'') = [0x60, 0xf4, 0xf4]"
proof -
  have wf: "well_formed_hex ''0x60f4f4''" by code_simp
  have bs: "hex_byte_values (strip0x ''0x60f4f4'') = [0x60, 0xf4, 0xf4]" by code_simp
  have cnt: "count_delegatecall_bytes [0x60, 0xf4, 0xf4] = 1" by simp
  show ?thesis
    using delegatecallCount_counts_opcode_bytes [OF wf, of cfg_opts]
          delegatecallCount_counts_opcode_bytes [OF wf, of linear_opts] wf bs cnt
    by auto
qed

subsection \<open>C3: malformed input\<close>



subsection \<open>C4: program counters of the disassembly\<close>

text \<open>
  C4 against the code: on the input \<open>0x000c\<close> the STOP at byte offset 0 gets \<open>pc = 1\<close>
  (the cursor after the instruction), while the unknown byte \<open>0c\<close> at offset 1 gets its
  own offset, \<open>pc = 1\<close>. So \<open>pc\<close> is not the offset of the opcode byte for a known
  opcode, and the program counters of the sequence are not strictly increasing.
\<close>

theorem decode_pc_post_advance:
  "decodeBytecode ''0x000c'' =
     [\<lparr>pc = 1, op = ''STOP'', pushData = None, stackIn = 0, stackOut = 0\<rparr>,
      \<lparr>pc = 1, op = ''0x0c'', pushData = None, stackIn = 0, stackOut = 0\<rparr>]"
  by code_simp

subsection \<open>C5: literals classified as hardcoded addresses\<close>

text \<open>
  C5 against the code: \<open>normalize\<close> always puts \<open>0x\<close> in front, and \<open>classifyTarget\<close>
  accepts the normalized lengths 40 and 42. The immediate of a PUSH19, 38 hex digits,
  is therefore classified \<open>hardcoded\<close>, although its stripped form has not 40 digits.
\<close>

theorem classifyTarget_19_byte_literal:
  "decodeBytecode ''0x7211111111111111111111111111111111111111'' =
     [\<lparr>pc = 20, op = ''PUSH19'', pushData = Some ''0x11111111111111111111111111111111111111'',
       stackIn = 0, stackOut = 1\<rparr>] \<and>
   length ''11111111111111111111111111111111111111'' = 38 \<and>
   classifyTarget (Literal ''0x11111111111111111111111111111111111111'') =
     \<lparr>tc_type = hardcoded, addressLiteral = Some ''0x11111111111111111111111111111111111111'',
      storageSlotLiteral = None, details = None\<rparr>"
  by code_simp

subsection \<open>C6: proxy patterns and their priority\<close>

text \<open>
  C6: every site gets at most one pattern (the field is optional), and the names follow
  the priority EIP-1167, then EIP-1967/UUPS, then Diamond. If the lowercase bytecode
  without its \<open>0x\<close> has the EIP-1167 shape, every site is tagged EIP-1167. Otherwise a
  site whose slot literal (in lowercase) is the EIP-1967 implementation slot is tagged
  UUPS if the slot literals of all sites include the UUPS slot, and EIP-1967 if not.
  Otherwise, if the Diamond condition holds, the site is tagged Diamond. Every other
  site has no pattern. All other fields of the sites are left as they were.
\<close>

theorem detectProxyPatterns_priority:
  "map (\<lambda>s. map_option pm_name (patternMatch s)) (detectProxyPatterns bytecode ss) =
     map (\<lambda>site.
            if contains_eip1167 (toLowerCase (strip0x bytecode)) then Some ''EIP-1167''
            else if lower_slot site = Some EIP1967_IMPL_SLOT then
              (if \<exists>s \<in> set ss. lower_slot s = Some UUPS_SLOT then Some ''UUPS''
               else Some ''EIP-1967'')
            else if diamond_shape ss then Some ''Diamond''
            else None) ss \<and>
   map (\<lambda>s. s\<lparr>patternMatch := None\<rparr>) (detectProxyPatterns bytecode ss) =
     map (\<lambda>s. s\<lparr>patternMatch := None\<rparr>) ss"
proof -
  have uups: "(UUPS_SLOT \<in> set (List.map_filter lower_slot ss)) =
              (\<exists>s \<in> set ss. lower_slot s = Some UUPS_SLOT)"
    by (simp add: set_map_filter)
  show ?thesis
    unfolding detectProxyPatterns_def Let_def detectEip1167_spec detectDiamondPattern_spec uups
      map_map comp_def
    by (intro conjI map_cong refl) simp_all
qed

text \<open>C6 at a concrete input: with a bytecode that has no EIP-1167 shape, a site reading the
  EIP-1967 slot and a site reading slot \<open>0x01\<close> are tagged EIP-1967 and Diamond.\<close>

theorem detectProxyPatterns_priority_witness:
  "map (\<lambda>s. map_option pm_name (patternMatch s))
     (detectProxyPatterns ''0x00''
        [make_site \<lparr>pc = 35, op = ''DELEGATECALL'', pushData = None, stackIn = 6, stackOut = 1\<rparr>
           ''linear''
           (Storage (Literal ''0x360894a13ba1a3210667c828492db98dca3e2076cc3735a920a3ca505d382bbc'')),
         make_site \<lparr>pc = 40, op = ''DELEGATECALL'', pushData = None, stackIn = 6, stackOut = 1\<rparr>
           ''linear'' (Storage (Literal ''0x01''))])
   = [Some ''EIP-1967'', Some ''Diamond'']"
proof -
  let ?s1 = "make_site \<lparr>pc = 35, op = ''DELEGATECALL'', pushData = None, stackIn = 6, stackOut = 1\<rparr>
           ''linear''
           (Storage (Literal ''0x360894a13ba1a3210667c828492db98dca3e2076cc3735a920a3ca505d382bbc''))"
  let ?s2 = "make_site \<lparr>pc = 40, op = ''DELEGATECALL'', pushData = None, stackIn = 6, stackOut = 1\<rparr>
           ''linear'' (Storage (Literal ''0x01''))"
  have a: "\<not> contains_eip1167 (toLowerCase (strip0x ''0x00''))"
    unfolding detectEip1167_spec [symmetric] by code_simp
  have b: "diamond_shape [?s1, ?s2]"
    unfolding detectDiamondPattern_spec [symmetric] by code_simp
  have c: "lower_slot ?s1 = Some EIP1967_IMPL_SLOT" by code_simp
  have d: "lower_slot ?s2 \<noteq> Some EIP1967_IMPL_SLOT" by code_simp
  have e: "\<not> (\<exists>s \<in> set [?s1, ?s2]. lower_slot s = Some UUPS_SLOT)" by code_simp
  have "map (\<lambda>s. map_option pm_name (patternMatch s)) (detectProxyPatterns ''0x00'' [?s1, ?s2]) =
     map (\<lambda>site.
            if contains_eip1167 (toLowerCase (strip0x ''0x00'')) then Some ''EIP-1167''
            else if lower_slot site = Some EIP1967_IMPL_SLOT then
              (if \<exists>s \<in> set [?s1, ?s2]. lower_slot s = Some UUPS_SLOT then Some ''UUPS''
               else Some ''EIP-1967'')
            else if diamond_shape [?s1, ?s2] then Some ''Diamond''
            else None) [?s1, ?s2]"
    using detectProxyPatterns_priority [of "''0x00''" "[?s1, ?s2]"] by (rule conjunct1)
  also have "\<dots> = [Some ''EIP-1967'', Some ''Diamond'']"
    unfolding list.map if_not_P [OF a] if_P [OF c] if_not_P [OF d] if_not_P [OF e] if_P [OF b]
    by (rule refl)
  finally show ?thesis .
qed

subsection \<open>C7: overall risk\<close>

text \<open>
  C7: for every input and every choice of options the analysis returns a report in which
  \<open>overallRisk\<close> is absent exactly when there are no sites, and otherwise is the risk of one
  of the sites and not below the risk of any site in the order given by \<open>order_index\<close>
  (low 0, medium 1, high 2, unknown 3).
\<close>

theorem overallRisk_is_maximum:
  "order_index risk_low < order_index risk_medium \<and>
   order_index risk_medium < order_index risk_high \<and>
   order_index risk_high < order_index risk_unknown \<and>
   (\<exists>r. analyzeBytecode bytecode opts = Some r \<and>
       (overallRisk r = None \<longleftrightarrow> sites r = []) \<and>
       (\<forall>m. overallRisk r = Some m \<longrightarrow>
            m \<in> set (map rs_risk (sites r)) \<and>
            (\<forall>s \<in> set (sites r). order_index (rs_risk s) \<le> order_index m)))"
proof -
  obtain r where r: "analyzeBytecode bytecode opts = Some r" "overallRisk r = overall_risk (sites r)"
    using analyzeBytecode_returns by blast
  have "(overallRisk r = None \<longleftrightarrow> sites r = []) \<and>
       (\<forall>m. overallRisk r = Some m \<longrightarrow>
            m \<in> set (map rs_risk (sites r)) \<and>
            (\<forall>s \<in> set (sites r). order_index (rs_risk s) \<le> order_index m))"
    using r(2) overall_risk_max [of "sites r"] by simp
  with r(1) show ?thesis by auto
qed

text \<open>C7 at a concrete input: one site of risk high, overall risk high.\<close>

theorem overallRisk_is_maximum_witness:
  "map_option overallRisk (analyzeBytecode ''60003560006000f4'' linear_opts) = Some (Some risk_high) \<and>
   map_option (\<lambda>r. map rs_risk (sites r)) (analyzeBytecode ''60003560006000f4'' linear_opts)
     = Some [risk_high]"
proof -
  have ev: "map_option (\<lambda>r. map rs_risk (sites r)) (analyzeBytecode ''60003560006000f4'' linear_opts)
     = Some [risk_high]" by code_simp
  show ?thesis
    using overallRisk_is_maximum [of "''60003560006000f4''" linear_opts] ev
    by (cases "analyzeBytecode ''60003560006000f4'' linear_opts") auto
qed

subsection \<open>C8: bytes outside the opcode table\<close>

text \<open>
  C8, as stated, fails for the CFG tracer: the byte \<open>0c\<close> is not in the opcode table, its
  mnemonic is \<open>0x0c\<close>, and the tracer's transfer function leaves the stack as it is,
  because \<open>getOpcodeInfo\<close> knows no such mnemonic and the pops are guarded by \<open>if (info)\<close>.
\<close>

theorem unknown_opcode_cfg_counterexample:
  "lookupOpcode (Num 0x0c) = None \<and>
   decodeBytecode ''0c'' = [\<lparr>pc = 0, op = ''0x0c'', pushData = None, stackIn = 0, stackOut = 0\<rparr>] \<and>
   applyInstructionToStack ''0x0c'' None [Literal ''0x01''] = [Literal ''0x01'']"
  by code_simp

text \<open>
  C8, amended: for every byte that is not in the opcode table, the instruction that the
  disassembler makes of it has the mnemonic \<open>0x\<close> followed by the byte in hex; the
  transfer function of the linear mode removes the top slot (an empty stack stays empty)
  and pushes nothing; the transfer function of the CFG tracer leaves the stack unchanged.
\<close>

theorem unknown_opcode_transfer:
  assumes "p < length bytes" and "lookupOpcode (bytes ! p) = None"
  shows "op (fst (decode_step bytes p)) = ''0x'' @ hex2 (bytes ! p) \<and>
         applyInstructionToStack_linear (op (fst (decode_step bytes p)))
             (pushData (fst (decode_step bytes p))) st = butlast st \<and>
         applyInstructionToStack (op (fst (decode_step bytes p)))
             (pushData (fst (decode_step bytes p))) st = st"
  using assms by (simp add: decode_step_def unknown_mnemonic_cfg unknown_mnemonic_linear)

text \<open>C8 at a concrete input: the byte \<open>0c\<close> on a stack of two slots.\<close>

theorem unknown_opcode_transfer_witness:
  "op (fst (decode_step [Num 12] 0)) = ''0x0c'' \<and>
   applyInstructionToStack_linear (op (fst (decode_step [Num 12] 0)))
      (pushData (fst (decode_step [Num 12] 0))) [Unknown, Literal ''0x01''] = [Unknown] \<and>
   applyInstructionToStack (op (fst (decode_step [Num 12] 0)))
      (pushData (fst (decode_step [Num 12] 0))) [Unknown, Literal ''0x01'']
     = [Unknown, Literal ''0x01'']"
proof -
  have h1: "(0::nat) < length [Num 12]" by simp
  have h2: "lookupOpcode ([Num 12] ! 0) = None" by (simp add: lookupOpcode_def OPCODES_def)
  have h3: "hex2 (Num 12) = ''0c''" by code_simp
  show ?thesis
    using unknown_opcode_transfer [OF h1 h2, of "[Unknown, Literal ''0x01'']"] h3 by auto
qed

subsection \<open>C9: truncated PUSH immediates\<close>

text \<open>
  C9, as stated, fails: in \<open>61ab\<close> the PUSH2 has only one byte left; the disassembler
  emits the immediate \<open>0xab\<close>, two hex digits and not four. \<open>bytes.slice\<close> returns the
  bytes that exist and nothing pads them.
\<close>

theorem truncated_push_counterexample:
  "decodeBytecode ''61ab'' =
     [\<lparr>pc = 3, op = ''PUSH2'', pushData = Some ''0xab'', stackIn = 0, stackOut = 1\<rparr>]"
  by code_simp

text \<open>
  C9, amended: for every well-formed hex bytecode, an emitted instruction with an
  immediate is a PUSH-N (N from 1 to 32) decoded at some cursor \<open>p\<close>; its \<open>pushData\<close> is
  \<open>0x\<close> followed by the hex digits of the bytes that exist among the \<open>N\<close> bytes after
  the opcode, two digits each and without padding. So it has \<open>2N\<close> digits when the \<open>N\<close>
  bytes are all there, and twice the number of remaining bytes when the immediate runs
  past the end of the byte vector.
\<close>

theorem push_immediate_not_padded:
  assumes wf: "well_formed_hex bytecode"
    and ins: "ins \<in> set (decodeBytecode bytecode)"
    and pd: "pushData ins = Some d"
  shows "\<exists>N p. 1 \<le> N \<and> N \<le> 32 \<and> op ins = ''PUSH'' @ dec_digits N \<and>
               p < length (parseBytes bytecode) \<and>
               parseBytes bytecode ! p = Num (0x5f + int N) \<and>
               d = ''0x'' @ concat (map hex2 (take N (drop (p + 1) (parseBytes bytecode)))) \<and>
               length d = 2 + 2 * min N (length (parseBytes bytecode) - (p + 1))"
proof -
  let ?bytes = "parseBytes bytecode"
  let ?ns = "hex_byte_values (strip0x bytecode)"
  have bytes: "?bytes = map (\<lambda>n. Num (int n)) ?ns" using wf by (rule parseBytes_well_formed)
  from wf have "list_all (is_digit 16) (strip0x bytecode)" by (simp add: well_formed_hex_def)
  then have rng: "\<forall>n \<in> set ?ns. n < 256" by (rule hex_byte_values_range)
  from ins obtain p where p: "p < length ?bytes" "ins = fst (decode_step ?bytes p)"
    using decode_loop_mem [of ins ?bytes 0] by (auto simp: decodeBytecode_def)
  with pd obtain N where N: "1 \<le> N" "N \<le> 32" "?bytes ! p = Num (0x5f + int N)"
      "op ins = ''PUSH'' @ dec_digits N"
      "d = ''0x'' @ concat (map hex2 (take N (drop (p + 1) ?bytes)))"
    using decode_step_pushData [of ?bytes p d] by auto
  have "take N (drop (p + 1) ?bytes) = map (\<lambda>n. Num (int n)) (take N (drop (p + 1) ?ns))"
    by (simp add: bytes take_map drop_map)
  moreover have "\<forall>n \<in> set (take N (drop (p + 1) ?ns)). n < 256"
    using rng by (meson in_set_dropD in_set_takeD)
  ultimately have "length (concat (map hex2 (take N (drop (p + 1) ?bytes))))
      = 2 * length (take N (drop (p + 1) ?ns))"
    using concat_hex2_length by simp
  also have "\<dots> = 2 * min N (length ?bytes - (p + 1))"
    by (simp add: bytes min.commute)
  finally have "length d = 2 + 2 * min N (length ?bytes - (p + 1))"
    using N(5) by simp
  with N p(1) show ?thesis by blast
qed

text \<open>C9 at a concrete input: the truncated PUSH2 of \<open>61ab\<close>, with \<open>N = 2\<close> and one byte
  left.\<close>

theorem push_immediate_not_padded_witness:
  "well_formed_hex ''61ab'' \<and>
   \<lparr>pc = 3, op = ''PUSH2'', pushData = Some ''0xab'', stackIn = 0, stackOut = 1\<rparr>
      \<in> set (decodeBytecode ''61ab'') \<and>
   (\<exists>N p. 1 \<le> N \<and> N \<le> 32 \<and> ''PUSH2'' = ''PUSH'' @ dec_digits N \<and>
          p < length (parseBytes ''61ab'') \<and>
          parseBytes ''61ab'' ! p = Num (0x5f + int N) \<and>
          ''0xab'' = ''0x'' @ concat (map hex2 (take N (drop (p + 1) (parseBytes ''61ab'')))) \<and>
          length ''0xab'' = 2 + 2 * min N (length (parseBytes ''61ab'') - (p + 1)))"
proof -
  have wf: "well_formed_hex ''61ab''" by code_simp
  have mem: "\<lparr>pc = 3, op = ''PUSH2'', pushData = Some ''0xab'', stackIn = 0, stackOut = 1\<rparr>
      \<in> set (decodeBytecode ''61ab'')" by code_simp
  show ?thesis
    using push_immediate_not_padded [OF wf mem, of "''0xab''"] wf mem by simp
qed

subsection \<open>C10: the join of two abstract states\<close>

text \<open>
  C10, as stated, fails: stacks of differing depths have no common depth, and the depth
  of the join is no function of the two depths alone. The join of a stack of depth 2 with
  one of depth 1 has depth 2; with the arguments exchanged it has depth 1.
\<close>

theorem joinStates_depth_counterexample:
  "stack (joinStates \<lparr>stack = [Literal ''0x01'', Literal ''0x02''], memory = []\<rparr>
                     \<lparr>stack = [Literal ''0x01''], memory = []\<rparr>) = [Unknown, Unknown] \<and>
   stack (joinStates \<lparr>stack = [Literal ''0x01''], memory = []\<rparr>
                     \<lparr>stack = [Literal ''0x01'', Literal ''0x02''], memory = []\<rparr>) = [Unknown]"
  by code_simp

text \<open>
  C10, amended: the join has an empty memory. If the stacks differ in depth, the joined
  stack consists of \<open>Unknown\<close> only, as many as the first state's stack has slots. If the
  depths are equal, the joined stack has that depth, and each slot keeps its expression
  when the two states agree on it and is \<open>Unknown\<close> otherwise.
\<close>

theorem joinStates_spec:
  "memory (joinStates s1 s2) = [] \<and>
   (length (stack s1) \<noteq> length (stack s2) \<longrightarrow>
      stack (joinStates s1 s2) = replicate (length (stack s1)) Unknown) \<and>
   (length (stack s1) = length (stack s2) \<longrightarrow>
      length (stack (joinStates s1 s2)) = length (stack s1) \<and>
      (\<forall>i < length (stack s1).
         stack (joinStates s1 s2) ! i =
           (if stack s1 ! i = stack s2 ! i then stack s1 ! i else Unknown)))"
  by (simp add: joinStates_def map_replicate_const)

text \<open>C10 at concrete inputs: stacks of depths 2 and 1, and two stacks of depth 2 that
  agree on the first slot only.\<close>

theorem joinStates_spec_witness:
  "stack (joinStates \<lparr>stack = [Literal ''0x01'', Calldata Unknown], memory = []\<rparr>
                     \<lparr>stack = [Literal ''0x01''], memory = []\<rparr>) = [Unknown, Unknown] \<and>
   stack (joinStates \<lparr>stack = [Literal ''0x01'', Calldata Unknown], memory = []\<rparr>
                     \<lparr>stack = [Literal ''0x01'', Storage Unknown], memory = []\<rparr>) ! 0 = Literal ''0x01'' \<and>
   stack (joinStates \<lparr>stack = [Literal ''0x01'', Calldata Unknown], memory = []\<rparr>
                     \<lparr>stack = [Literal ''0x01'', Storage Unknown], memory = []\<rparr>) ! 1 = Unknown"
  using joinStates_spec [of "\<lparr>stack = [Literal ''0x01'', Calldata Unknown], memory = []\<rparr>"
                            "\<lparr>stack = [Literal ''0x01''], memory = []\<rparr>"]
        joinStates_spec [of "\<lparr>stack = [Literal ''0x01'', Calldata Unknown], memory = []\<rparr>"
                            "\<lparr>stack = [Literal ''0x01'', Storage Unknown], memory = []\<rparr>"]
  by (simp add: numeral_2_eq_2)

end
